theory Spec2Isabelle
  imports
    Main
    "HOL-Library.Monad_Syntax"
    "HOL-Library.Multiset"
    "HOL-Library.Word"
    "HOL-Library.Char_ord"
    "HOL-Library.List_Lexorder"
begin

text \<open>
  A model of \<^verbatim>\<open>queue.c\<close>, the queue built on a circular doubly-linked list with a
  sentinel, and the properties proved of it.  The heap is explicit: every function takes
  the heap and returns the new one.  A loop is a recursive function into \<open>option\<close>, so
  that a theorem \<open>f x = Some y\<close> says that the loop returns; \<open>None\<close> is a run that does
  not return.
\<close>

section \<open>C strings\<close>

text \<open>
  A \<^verbatim>\<open>char\<close> buffer is the list of its bytes.  The C string held by a buffer is the
  part before the first NUL byte.  \<^verbatim>\<open>strlen\<close>, \<^verbatim>\<open>strnlen\<close>, \<^verbatim>\<open>strncpy\<close> and \<^verbatim>\<open>strcmp\<close>
  follow the C standard library.  A buffer with no NUL byte is not a C string: the
  library functions would read past its end.  The functions of this section read the
  end of the list as the terminator; \<open>is_c_string\<close> says that a buffer is terminated,
  and the theorems about \<^verbatim>\<open>strcmp\<close> assume it of the strings compared.  A removal hands
  a heap block to \<^verbatim>\<open>strncpy\<close>: there the model checks that the read stays inside the
  block (\<open>strncpy_reads_inside\<close> below) and has no result when it does not.
\<close>

abbreviation NUL :: char where
  "NUL \<equiv> CHR 0x00"

definition c_str :: "string \<Rightarrow> string" where
  "c_str buf = takeWhile (\<lambda>c. c \<noteq> NUL) buf"

definition is_c_string :: "string \<Rightarrow> bool" where
  "is_c_string buf = (NUL \<in> set buf)"

definition strlen :: "string \<Rightarrow> nat" where
  "strlen buf = length (c_str buf)"

definition strnlen :: "string \<Rightarrow> nat \<Rightarrow> nat" where
  "strnlen buf maxlen = min (strlen buf) maxlen"

text \<open>
  \<^verbatim>\<open>strncpy(dst, src, n)\<close> stores exactly \<open>n\<close> bytes: the bytes of the string \<open>src\<close>, then
  NUL bytes up to \<open>n\<close>.  When the string has \<open>n\<close> bytes or more, no NUL is stored.
\<close>

definition strncpy :: "string \<Rightarrow> nat \<Rightarrow> string" where
  "strncpy src n = take n (c_str src @ replicate n NUL)"

text \<open>
  \<^verbatim>\<open>strcmp\<close> compares byte by byte, as unsigned bytes, up to the first NUL.  The C standard
  fixes only the sign of the result; the model returns the difference of the first
  bytes that differ.  The queue code looks at the sign only.
\<close>

fun strcmp :: "string \<Rightarrow> string \<Rightarrow> int" where
  "strcmp [] [] = 0"
| "strcmp [] (y # ys) = - of_char y"
| "strcmp (x # xs) [] = of_char x"
| "strcmp (x # xs) (y # ys) =
     (if x \<noteq> y then of_char x - of_char y
      else if x = NUL then 0
      else strcmp xs ys)"

section \<open>The heap\<close>

text \<open>
  Modelled from the spec: the declarations of \<^verbatim>\<open>struct list_head\<close> (\<^verbatim>\<open>list.h\<close>) and of
  \<^verbatim>\<open>element_t\<close> (\<^verbatim>\<open>queue.h\<close>) are missing.  By section 3 of the specification a link node
  is a pair of references \<^verbatim>\<open>next\<close> and \<^verbatim>\<open>prev\<close>, and an element holds a pointer to its
  string and an embedded link node.

  Addresses are natural numbers and \<open>NULL\<close> is address 0.  A \<^verbatim>\<open>struct list_head\<close> at
  address \<open>a\<close> has the fields \<open>nxt h a\<close> and \<open>prv h a\<close>.  An \<^verbatim>\<open>element_t\<close> is named by the
  address of the \<^verbatim>\<open>list_head\<close> embedded in it, so \<^verbatim>\<open>list_entry\<close> is the identity; its
  \<^verbatim>\<open>value\<close> pointer is \<open>val h a\<close>, and the bytes of the buffer it points to are
  \<open>bytes h (val h a)\<close>.  \<open>live h\<close> is the set of blocks that \<^verbatim>\<open>malloc\<close> has handed out and
  \<^verbatim>\<open>free\<close> has not taken back.
\<close>

type_synonym addr = nat

abbreviation (input) NULL :: addr where
  "NULL \<equiv> 0"

record heap =
  nxt :: "addr \<Rightarrow> addr"
  prv :: "addr \<Rightarrow> addr"
  val :: "addr \<Rightarrow> addr"
  bytes :: "addr \<Rightarrow> string"
  live :: "addr set"

text \<open>
  \<^verbatim>\<open>malloc\<close> either fails (the result is \<open>NULL\<close>) or returns a block that is not live.  The
  result is chosen by the allocator, not by the program, so every function that calls
  \<^verbatim>\<open>malloc\<close> takes the result as an argument \<open>p\<close>; \<open>malloc h p\<close> records the block as live.
\<close>

definition malloc_ok :: "heap \<Rightarrow> addr \<Rightarrow> bool" where
  "malloc_ok h p = (p \<noteq> NULL \<and> p \<notin> live h)"

definition malloc :: "heap \<Rightarrow> addr \<Rightarrow> heap" where
  "malloc h p = (if p = NULL then h else h\<lparr>live := insert p (live h)\<rparr>)"

definition free :: "heap \<Rightarrow> addr \<Rightarrow> heap" where
  "free h p = h\<lparr>live := live h - {p}\<rparr>"

text \<open>The string of the element at \<open>e\<close>, as \<^verbatim>\<open>strcmp\<close> reads it.\<close>

definition str :: "heap \<Rightarrow> addr \<Rightarrow> string" where
  "str h e = c_str (bytes h (val h e))"

section \<open>The list engine\<close>

text \<open>
  The header \<^verbatim>\<open>list.h\<close> is not among the source files; \<^verbatim>\<open>queue.c\<close> calls its functions
  and macros.  Each of them is modelled below from section 4.1 of the specification.
  \<^verbatim>\<open>list_for_each\<close> and \<^verbatim>\<open>list_for_each_safe\<close> are written out as the loops they expand
  to, where \<^verbatim>\<open>queue.c\<close> uses them.
\<close>

text \<open>
  Modelled from the spec: \<^verbatim>\<open>INIT_LIST_HEAD\<close> and \<^verbatim>\<open>LIST_HEAD\<close> of \<^verbatim>\<open>list.h\<close> are missing.
  An empty list is a sentinel whose \<^verbatim>\<open>next\<close> and \<^verbatim>\<open>prev\<close> both reference itself.
\<close>

definition INIT_LIST_HEAD :: "heap \<Rightarrow> addr \<Rightarrow> heap" where
  "INIT_LIST_HEAD h head = h\<lparr>nxt := (nxt h)(head := head), prv := (prv h)(head := head)\<rparr>"

text \<open>
  Modelled from the spec: \<^verbatim>\<open>list_empty\<close> of \<^verbatim>\<open>list.h\<close> is missing.  It is true iff
  \<^verbatim>\<open>head.next == head\<close>.
\<close>

definition list_empty :: "heap \<Rightarrow> addr \<Rightarrow> bool" where
  "list_empty h head = (nxt h head = head)"

text \<open>
  Modelled from the spec: \<^verbatim>\<open>list_is_singular\<close> of \<^verbatim>\<open>list.h\<close> is missing.  It is true iff
  the ring has exactly one element beyond the sentinel: the list is not empty and the
  first element is the last.
\<close>

definition list_is_singular :: "heap \<Rightarrow> addr \<Rightarrow> bool" where
  "list_is_singular h head = (\<not> list_empty h head \<and> prv h head = nxt h head)"

text \<open>
  Modelled from the spec: \<^verbatim>\<open>list_add\<close> of \<^verbatim>\<open>list.h\<close> is missing (\<^verbatim>\<open>insert_after\<close> in the
  specification).  It splices the node in right after the reference node \<open>head\<close>.
\<close>

definition list_add :: "heap \<Rightarrow> addr \<Rightarrow> addr \<Rightarrow> heap" where
  "list_add h node head =
     (let next = nxt h head
      in h\<lparr>nxt := (nxt h)(node := next, head := node),
           prv := (prv h)(next := node, node := head)\<rparr>)"

text \<open>
  Modelled from the spec: \<^verbatim>\<open>list_add_tail\<close> of \<^verbatim>\<open>list.h\<close> is missing (\<^verbatim>\<open>insert_before\<close>
  in the specification).  It splices the node in right before the reference node \<open>head\<close>.
\<close>

definition list_add_tail :: "heap \<Rightarrow> addr \<Rightarrow> addr \<Rightarrow> heap" where
  "list_add_tail h node head =
     (let prev = prv h head
      in h\<lparr>nxt := (nxt h)(prev := node, node := head),
           prv := (prv h)(node := prev, head := node)\<rparr>)"

text \<open>
  Modelled from the spec: \<^verbatim>\<open>list_del\<close> of \<^verbatim>\<open>list.h\<close> is missing (\<^verbatim>\<open>unlink\<close> in the
  specification).  It connects the two neighbours of the node to each other.  The
  specification leaves the node's own two fields unspecified afterwards; the model keeps
  them, and \<^verbatim>\<open>queue.c\<close> writes both before it reads either.
\<close>

definition list_del :: "heap \<Rightarrow> addr \<Rightarrow> heap" where
  "list_del h node =
     (let next = nxt h node; prev = prv h node
      in h\<lparr>nxt := (nxt h)(prev := next), prv := (prv h)(next := prev)\<rparr>)"

text \<open>
  Modelled from the spec: \<^verbatim>\<open>list_move\<close> of \<^verbatim>\<open>list.h\<close> is missing.  It unlinks the node and
  inserts it again right after the reference node \<open>head\<close>.
\<close>

definition list_move :: "heap \<Rightarrow> addr \<Rightarrow> addr \<Rightarrow> heap" where
  "list_move h node head = list_add (list_del h node) node head"

text \<open>
  Modelled from the spec: \<^verbatim>\<open>list_splice\<close> of \<^verbatim>\<open>list.h\<close> is missing.  It moves every element
  of the ring of \<open>list\<close> into the ring of \<open>head\<close>, right after \<open>head\<close>, and leaves \<open>list\<close>
  empty.
\<close>

definition list_splice :: "heap \<Rightarrow> addr \<Rightarrow> addr \<Rightarrow> heap" where
  "list_splice h list head =
     (if list_empty h list then h
      else
        let head_first = nxt h head; list_first = nxt h list; list_last = prv h list
        in h\<lparr>nxt := (nxt h)(head := list_first, list_last := head_first, list := list),
             prv := (prv h)(list_first := head, head_first := list_last, list := list)\<rparr>)"

section \<open>Construction, teardown, insertion, removal\<close>

text \<open>\<^verbatim>\<open>q_new\<close>: \<open>p\<close> is the result of its \<^verbatim>\<open>malloc\<close>.  Returns the heap and the new head.\<close>

definition q_new :: "heap \<Rightarrow> addr \<Rightarrow> heap \<times> addr" where
  "q_new h p =
     (if p = NULL then (h, NULL)
      else (INIT_LIST_HEAD (malloc h p) p, p))"

definition q_release_element :: "heap \<Rightarrow> addr \<Rightarrow> heap" where
  "q_release_element h e = free (free h (val h e)) e"

text \<open>
  The loop of \<^verbatim>\<open>q_free\<close>.  It runs until the sentinel references itself, which on a
  broken ring may never happen: not returning is the value \<open>None\<close>.
\<close>

partial_function (option) q_free_loop :: "heap \<Rightarrow> addr \<Rightarrow> addr \<Rightarrow> heap option" where
  "q_free_loop h l node =
     (if \<not> list_empty h l
      then (let tmp = node; node' = nxt h node
            in q_free_loop (q_release_element (list_del h tmp) tmp) l node')
      else Some h)"

declare q_free_loop.simps [code]

definition q_free :: "heap \<Rightarrow> addr \<Rightarrow> heap option" where
  "q_free h l =
     (if l = NULL then Some h
      else do { h' \<leftarrow> q_free_loop h l (nxt h l); Some (free h' l) })"

text \<open>
  \<^verbatim>\<open>q_insert_head\<close> and \<^verbatim>\<open>q_insert_tail\<close>: \<open>pn\<close> is the result of \<^verbatim>\<open>create_node\<close> and \<open>pv\<close>
  the result of the \<^verbatim>\<open>malloc\<close> for the string (not called when \<open>pn\<close> is \<open>NULL\<close>).  The
  local \<^verbatim>\<open>LIST_HEAD(list)\<close> is copied into the node and both fields are overwritten by
  \<^verbatim>\<open>list_add\<close> (\<^verbatim>\<open>list_add_tail\<close>) before anything reads them, so the model leaves the
  copy out.
\<close>

definition q_insert_head :: "heap \<Rightarrow> addr \<Rightarrow> string \<Rightarrow> addr \<Rightarrow> addr \<Rightarrow> heap \<times> bool" where
  "q_insert_head h head s pn pv =
     (if head = NULL \<or> prv h head = NULL \<or> nxt h head = NULL then (h, False)
      else
        let h1 = malloc h pn; node = pn
        in if node = NULL then (h1, False)
           else
             let len_s = strnlen s 1024 + 1;
                 h2 = malloc h1 pv;
                 h3 = h2\<lparr>val := (val h2)(node := pv)\<rparr>
             in if val h3 node = NULL then (free h3 node, False)
                else
                  let h4 = h3\<lparr>bytes := (bytes h3)(val h3 node := strncpy s len_s)\<rparr>
                  in (list_add h4 node head, True))"

definition q_insert_tail :: "heap \<Rightarrow> addr \<Rightarrow> string \<Rightarrow> addr \<Rightarrow> addr \<Rightarrow> heap \<times> bool" where
  "q_insert_tail h head s pn pv =
     (if head = NULL \<or> prv h head = NULL \<or> nxt h head = NULL then (h, False)
      else
        let h1 = malloc h pn; node = pn
        in if node = NULL then (h1, False)
           else
             let len_s = strnlen s 1024 + 1;
                 h2 = malloc h1 pv;
                 h3 = h2\<lparr>val := (val h2)(node := pv)\<rparr>
             in if val h3 node = NULL then (free h3 node, False)
                else
                  let h4 = h3\<lparr>bytes := (bytes h3)(val h3 node := strncpy s len_s)\<rparr>
                  in (list_add_tail h4 node head, True))"

text \<open>
  \<^verbatim>\<open>q_remove_head\<close> and \<^verbatim>\<open>q_remove_tail\<close>.  The buffer \<open>sp\<close> belongs to the caller and
  has room for \<open>bufsize\<close> bytes; \<open>bufsize\<close> is a \<^verbatim>\<open>size_t\<close>, a 64-bit word.  The model
  returns the byte stores made through \<open>sp\<close>, in order, each with its offset from \<open>sp\<close>:
  \<^verbatim>\<open>strncpy(sp, value, bufsize)\<close> stores \<open>bufsize\<close> bytes at the offsets from 0, and
  \<^verbatim>\<open>sp[bufsize - 1] = 0\<close> stores a NUL at offset \<open>bufsize - 1\<close>, computed in \<^verbatim>\<open>size_t\<close>.

  \<^verbatim>\<open>strncpy\<close> reads its source byte by byte until it has read a NUL or \<open>bufsize\<close> bytes.
  The source is the heap block of the element's string.  The read stays inside the block
  iff the block holds a NUL or has at least \<open>bufsize\<close> bytes; otherwise \<^verbatim>\<open>strncpy\<close> reads
  beyond the end of the block, the C program has no defined behaviour, and the model
  returns \<open>None\<close>.
\<close>

type_synonym stores = "(nat \<times> char) list"

definition strncpy_stores :: "string \<Rightarrow> nat \<Rightarrow> stores" where
  "strncpy_stores src n = zip [0..<n] (strncpy src n)"

definition strncpy_reads_inside :: "string \<Rightarrow> nat \<Rightarrow> bool" where
  "strncpy_reads_inside blk n = (is_c_string blk \<or> n \<le> length blk)"

definition copy_out :: "heap \<Rightarrow> addr \<Rightarrow> addr \<Rightarrow> 64 word \<Rightarrow> stores option" where
  "copy_out h ret_p sp bufsize =
     (if sp \<noteq> NULL
      then
        if strncpy_reads_inside (bytes h (val h ret_p)) (unat bufsize)
        then Some (strncpy_stores (bytes h (val h ret_p)) (unat bufsize) @
                   [(unat (bufsize - 1), NUL)])
        else None
      else Some [])"

definition q_remove_head ::
  "heap \<Rightarrow> addr \<Rightarrow> addr \<Rightarrow> 64 word \<Rightarrow> (heap \<times> addr \<times> stores) option" where
  "q_remove_head h head sp bufsize =
     (if head = NULL \<or> nxt h head = head then Some (h, NULL, [])
      else
        let ret_p = nxt h head;
            h' = list_del h (nxt h head)
        in case copy_out h' ret_p sp bufsize of
             None \<Rightarrow> None
           | Some ws \<Rightarrow> Some (h', ret_p, ws))"

definition q_remove_tail ::
  "heap \<Rightarrow> addr \<Rightarrow> addr \<Rightarrow> 64 word \<Rightarrow> (heap \<times> addr \<times> stores) option" where
  "q_remove_tail h head sp bufsize =
     (if head = NULL \<or> nxt h head = head then Some (h, NULL, [])
      else
        let ret_p = prv h head;
            h' = list_del h (prv h head)
        in case copy_out h' ret_p sp bufsize of
             None \<Rightarrow> None
           | Some ws \<Rightarrow> Some (h', ret_p, ws))"

text \<open>
  \<^verbatim>\<open>q_size\<close>: \<^verbatim>\<open>list_for_each\<close> walks from \<open>head->next\<close> until it meets \<open>head\<close> again.  The
  counter is a C \<^verbatim>\<open>int\<close>; the model counts in the integers, which agrees below \<open>2^31\<close>
  elements.
\<close>

partial_function (option) q_size_loop :: "heap \<Rightarrow> addr \<Rightarrow> addr \<Rightarrow> int \<Rightarrow> int option" where
  "q_size_loop h head node len =
     (if node \<noteq> head then q_size_loop h head (nxt h node) (len + 1) else Some len)"

declare q_size_loop.simps [code]

definition q_size :: "heap \<Rightarrow> addr \<Rightarrow> int option" where
  "q_size h head = (if head = NULL then Some 0 else q_size_loop h head (nxt h head) 0)"

section \<open>Structural algorithms\<close>

text \<open>
  \<^verbatim>\<open>q_delete_mid\<close>.  \<^verbatim>\<open>indirect\<close> points at a \<^verbatim>\<open>next\<close> field; the model keeps the address
  \<open>ind\<close> of the node that holds the field, so \<^verbatim>\<open>*indirect\<close> is \<open>nxt h ind\<close> and
  \<^verbatim>\<open>&(*indirect)->next\<close> is the node \<open>nxt h ind\<close>.
\<close>

partial_function (option) q_delete_mid_loop :: "heap \<Rightarrow> addr \<Rightarrow> addr \<Rightarrow> addr \<Rightarrow> addr option" where
  "q_delete_mid_loop h head ind fast =
     (if fast \<noteq> head \<and> nxt h fast \<noteq> head
      then q_delete_mid_loop h head (nxt h ind) (nxt h (nxt h fast))
      else Some ind)"

declare q_delete_mid_loop.simps [code]

definition q_delete_mid :: "heap \<Rightarrow> addr \<Rightarrow> (heap \<times> bool) option" where
  "q_delete_mid h head =
     (if head = NULL \<or> list_empty h head then Some (h, False)
      else do {
        ind \<leftarrow> q_delete_mid_loop h head head (nxt h head);
        let tmp = nxt h ind;
        Some (q_release_element (list_del h tmp) tmp, True)
      })"

text \<open>
  \<^verbatim>\<open>q_delete_dup\<close>: \<open>p\<close> is the result of the \<^verbatim>\<open>malloc\<close> inside \<^verbatim>\<open>q_new\<close>.  The early
  \<^verbatim>\<open>return NULL\<close> of a \<^verbatim>\<open>bool\<close> function returns \<^verbatim>\<open>false\<close>.  \<open>v\<close> is the pointer \<^verbatim>\<open>val\<close>.  When
  \<^verbatim>\<open>q_new\<close> failed, \<^verbatim>\<open>list_move(node, dup_strs)\<close> reads \<^verbatim>\<open>NULL->next\<close>: the program
  faults there and does not return, which is the value \<open>None\<close>.
\<close>

partial_function (option) q_delete_dup_loop ::
  "heap \<Rightarrow> addr \<Rightarrow> addr \<Rightarrow> addr \<Rightarrow> addr \<Rightarrow> addr \<Rightarrow> heap option" where
  "q_delete_dup_loop h head dup_strs v node safe =
     (if node \<noteq> head
      then
        let tmp = val h (nxt h head)
        in if strcmp (bytes h v) (bytes h tmp) = 0
           then (if dup_strs = NULL then None
                 else
                   let h' = list_move h node dup_strs
                   in q_delete_dup_loop h' head dup_strs v safe (nxt h' safe))
           else q_delete_dup_loop h head dup_strs tmp safe (nxt h safe)
      else Some h)"

declare q_delete_dup_loop.simps [code]

definition q_delete_dup :: "heap \<Rightarrow> addr \<Rightarrow> addr \<Rightarrow> (heap \<times> bool) option" where
  "q_delete_dup h head p =
     (if head = NULL \<or> nxt h head = head then Some (h, False)
      else do {
        let (h1, dup_strs) = q_new h p;
        let v = val h1 (nxt h1 head);
        let node = nxt h1 (nxt h1 head);
        h2 \<leftarrow> q_delete_dup_loop h1 head dup_strs v node (nxt h1 node);
        h3 \<leftarrow> q_free h2 dup_strs;
        Some (h3, True)
      })"

partial_function (option) q_swap_loop :: "heap \<Rightarrow> addr \<Rightarrow> addr \<Rightarrow> heap option" where
  "q_swap_loop h head node =
     (if node \<noteq> head \<and> nxt h node \<noteq> head
      then
        let tmp = nxt h node;
            h' = list_move h node tmp
        in q_swap_loop h' head (nxt h' node)
      else Some h)"

declare q_swap_loop.simps [code]

definition q_swap :: "heap \<Rightarrow> addr \<Rightarrow> heap option" where
  "q_swap h head = (if head = NULL then Some h else q_swap_loop h head (nxt h head))"

text \<open>The \<^verbatim>\<open>do ... while\<close> of \<^verbatim>\<open>q_reverse\<close>: one run of the body, then the test.\<close>

partial_function (option) q_reverse_loop :: "heap \<Rightarrow> addr \<Rightarrow> addr \<Rightarrow> heap option" where
  "q_reverse_loop h head node =
     (let tmp = nxt h node;
          h1 = h\<lparr>nxt := (nxt h)(node := prv h node)\<rparr>;
          h2 = h1\<lparr>prv := (prv h1)(node := tmp)\<rparr>;
          node' = prv h2 node
      in if node' \<noteq> head then q_reverse_loop h2 head node' else Some h2)"

declare q_reverse_loop.simps [code]

definition q_reverse :: "heap \<Rightarrow> addr \<Rightarrow> heap option" where
  "q_reverse h head =
     (if head = NULL \<or> nxt h head = head then Some h else q_reverse_loop h head head)"

section \<open>Merge sort\<close>

text \<open>
  The inner \<^verbatim>\<open>while\<close> of \<^verbatim>\<open>merge_two_list\<close>: \<open>right\<close> is the node being placed, and the
  result is the final \<^verbatim>\<open>left\<close> and \<^verbatim>\<open>cmp_result\<close>.
\<close>

partial_function (option) merge_advance ::
  "heap \<Rightarrow> addr \<Rightarrow> addr \<Rightarrow> addr \<Rightarrow> int \<Rightarrow> (addr \<times> int) option" where
  "merge_advance h left_head right left cmp_result =
     (if nxt h left \<noteq> left_head \<and> cmp_result \<le> 0
      then
        let left' = nxt h left
        in merge_advance h left_head right left'
             (strcmp (bytes h (val h left')) (bytes h (val h right)))
      else Some (left, cmp_result))"

declare merge_advance.simps [code]

text \<open>The \<^verbatim>\<open>list_for_each_safe\<close> loop of \<^verbatim>\<open>merge_two_list\<close>.\<close>

partial_function (option) merge_loop ::
  "heap \<Rightarrow> addr \<Rightarrow> addr \<Rightarrow> addr \<Rightarrow> addr \<Rightarrow> addr \<Rightarrow> heap option" where
  "merge_loop h left_head right_head left right safe =
     (if right \<noteq> right_head
      then do {
        (left', cmp_result) \<leftarrow>
          merge_advance h left_head right left
            (strcmp (bytes h (val h left)) (bytes h (val h right)));
        let h1 = list_del h right;
        let h2 = (if cmp_result > 0 then list_add_tail h1 right left'
                  else list_add h1 right left');
        merge_loop h2 left_head right_head left' safe (nxt h2 safe)
      }
      else Some h)"

declare merge_loop.simps [code]

definition merge_two_list :: "heap \<Rightarrow> addr \<Rightarrow> addr \<Rightarrow> heap option" where
  "merge_two_list h left_head right_head =
     (let left = nxt h left_head
      in if left = left_head \<and> nxt h right_head \<noteq> right_head
         then Some (list_splice h right_head left_head)
         else
           let right = nxt h right_head
           in merge_loop h left_head right_head left right (nxt h right))"

text \<open>The fast/slow walk of \<^verbatim>\<open>q_sort\<close>; the result is \<^verbatim>\<open>slow\<close>.\<close>

partial_function (option) q_sort_mid :: "heap \<Rightarrow> addr \<Rightarrow> addr \<Rightarrow> addr \<Rightarrow> addr option" where
  "q_sort_mid h head slow fast =
     (if fast \<noteq> head \<and> nxt h fast \<noteq> head
      then q_sort_mid h head (nxt h slow) (nxt h (nxt h fast))
      else Some slow)"

declare q_sort_mid.simps [code]

text \<open>
  The six assignments of \<^verbatim>\<open>q_sort\<close> that cut the ring after \<^verbatim>\<open>slow\<close>; \<open>right\<close> is the
  address of the local \<^verbatim>\<open>LIST_HEAD(right)\<close>, which starts out referencing itself.
\<close>

definition q_sort_split :: "heap \<Rightarrow> addr \<Rightarrow> addr \<Rightarrow> addr \<Rightarrow> heap" where
  "q_sort_split h head slow right =
     (let h0 = INIT_LIST_HEAD h right;
          h1 = h0\<lparr>nxt := (nxt h0)(right := nxt h0 slow)\<rparr>;
          h2 = h1\<lparr>prv := (prv h1)(nxt h1 right := right)\<rparr>;
          h3 = h2\<lparr>prv := (prv h2)(right := prv h2 head)\<rparr>;
          h4 = h3\<lparr>nxt := (nxt h3)(prv h3 right := right)\<rparr>;
          h5 = h4\<lparr>nxt := (nxt h4)(slow := head)\<rparr>
      in h5\<lparr>prv := (prv h5)(head := slow)\<rparr>)"

text \<open>
  \<^verbatim>\<open>q_sort\<close>.  The local sentinel \<^verbatim>\<open>right\<close> lives in the stack frame of the call:
  \<open>stk d\<close> is its address in a call at recursion depth \<open>d\<close>, so the two recursive calls,
  one after the other at depth \<open>d + 1\<close>, use the same slot.
\<close>

partial_function (option) q_sort :: "(nat \<Rightarrow> addr) \<Rightarrow> nat \<Rightarrow> heap \<Rightarrow> addr \<Rightarrow> heap option" where
  "q_sort stk d h head =
     (if head = NULL \<or> nxt h head = head \<or> list_is_singular h head then Some h
      else do {
        slow \<leftarrow> q_sort_mid h head (nxt h head) (nxt h (nxt h head));
        let right = stk d;
        let h1 = q_sort_split h head slow right;
        h2 \<leftarrow> q_sort stk (d + 1) h1 right;
        h3 \<leftarrow> q_sort stk (d + 1) h2 head;
        merge_two_list h3 head right
      })"

declare q_sort.simps [code]

section \<open>Observations and concrete queues\<close>



text \<open>
  \<open>queue_of head es\<close> is a heap that holds one queue: the sentinel at \<open>head\<close> and, in
  order, one element for every \<open>(node, buffer, bytes)\<close> of \<open>es\<close>.  It is used for the
  worked examples.
\<close>

definition queue_of :: "addr \<Rightarrow> (addr \<times> addr \<times> string) list \<Rightarrow> heap" where
  "queue_of head es =
     (let cyc = head # map fst es @ [head]
      in \<lparr>nxt = (\<lambda>a. case map_of (zip cyc (tl cyc)) a of Some b \<Rightarrow> b | None \<Rightarrow> NULL),
          prv = (\<lambda>a. case map_of (zip (tl cyc) cyc) a of Some b \<Rightarrow> b | None \<Rightarrow> NULL),
          val = (\<lambda>a. case map_of es a of Some (p, s) \<Rightarrow> p | None \<Rightarrow> NULL),
          bytes = (\<lambda>p. case map_of (map snd es) p of Some s \<Rightarrow> s | None \<Rightarrow> []),
          live = insert head (set (map fst es) \<union> set (map (fst \<circ> snd) es))\<rparr>)"

section \<open>Rings\<close>

text \<open>
  \<open>path f x as y\<close>: starting at \<open>x\<close> and following the field \<open>f\<close>, the nodes visited are
  \<open>as\<close>, and the node after the last of them is \<open>y\<close>.
\<close>

fun path :: "(addr \<Rightarrow> addr) \<Rightarrow> addr \<Rightarrow> addr list \<Rightarrow> addr \<Rightarrow> bool" where
  "path f x [] y = (x = y)"
| "path f x (a # as) y = (x = a \<and> path f (f a) as y)"

text \<open>
  \<open>ring h head xs\<close>: in the heap \<open>h\<close> the sentinel \<open>head\<close> and the nodes \<open>xs\<close>, in this
  order, form a circular doubly-linked list.  The nodes are distinct and none is \<open>NULL\<close>;
  following \<^verbatim>\<open>next\<close> from the sentinel visits \<open>xs\<close> and comes back to the sentinel, and
  following \<^verbatim>\<open>prev\<close> visits \<open>xs\<close> backwards and comes back.
\<close>

definition ring :: "heap \<Rightarrow> addr \<Rightarrow> addr list \<Rightarrow> bool" where
  "ring h head xs =
     (head \<noteq> NULL \<and> NULL \<notin> set xs \<and> distinct (head # xs) \<and>
      path (nxt h) head (head # xs) head \<and> path (prv h) head (head # rev xs) head)"

text \<open>
  \<open>relinked S h h'\<close>: from \<open>h\<close> to \<open>h'\<close> only link fields of nodes in \<open>S\<close> were written;
  no \<^verbatim>\<open>value\<close> pointer, no string and no allocation changed.
\<close>

definition relinked :: "addr set \<Rightarrow> heap \<Rightarrow> heap \<Rightarrow> bool" where
  "relinked S h h' =
     ((\<forall>a. a \<notin> S \<longrightarrow> nxt h' a = nxt h a \<and> prv h' a = prv h a) \<and>
      val h' = val h \<and> bytes h' = bytes h \<and> live h' = live h)"

text \<open>
  The stack slots that \<^verbatim>\<open>q_sort\<close> may use from depth \<open>d\<close> on: different depths have
  different slots, none is \<open>NULL\<close> and none is a node of \<open>S\<close>.
\<close>

definition stack_ok :: "(nat \<Rightarrow> addr) \<Rightarrow> nat \<Rightarrow> addr set \<Rightarrow> bool" where
  "stack_ok stk d S = (inj stk \<and> (\<forall>k\<ge>d. stk k \<noteq> NULL \<and> stk k \<notin> S))"

text \<open>
  \<open>swap_links S h\<close> is \<open>h\<close> with the two link fields of every node of \<open>S\<close> exchanged:
  the heap that the loop of \<^verbatim>\<open>q_reverse\<close> has built once it has visited the nodes \<open>S\<close>.
\<close>

definition swap_links :: "addr set \<Rightarrow> heap \<Rightarrow> heap" where
  "swap_links S h =
     h\<lparr>nxt := (\<lambda>a. if a \<in> S then prv h a else nxt h a),
       prv := (\<lambda>a. if a \<in> S then nxt h a else prv h a)\<rparr>"

text \<open>
  \<open>c_strings h xs\<close>: the \<^verbatim>\<open>value\<close> of every element of \<open>xs\<close> points to a terminated string,
  so that \<^verbatim>\<open>strcmp\<close> on two of them stays inside their buffers.
\<close>

definition c_strings :: "heap \<Rightarrow> addr list \<Rightarrow> bool" where
  "c_strings h xs = list_all (\<lambda>x. is_c_string (bytes h (val h x))) xs"

text \<open>The order of the elements after \<^verbatim>\<open>q_swap\<close>: every two neighbours exchanged.\<close>

fun swap_pairs :: "'a list \<Rightarrow> 'a list" where
  "swap_pairs [] = []"
| "swap_pairs [a] = [a]"
| "swap_pairs (a # b # xs) = b # a # swap_pairs xs"

section \<open>C strings and buffers: lemmas\<close>


lemma c_str_append_NUL: "NUL \<notin> set s \<Longrightarrow> c_str (s @ NUL # t) = s"
  unfolding c_str_def by (induction s) auto


lemma strncpy_short:
  "strlen src < n \<Longrightarrow> strncpy src n = c_str src @ replicate (n - strlen src) NUL"
  by (simp add: strncpy_def strlen_def)

lemma strncpy_long: "n \<le> strlen src \<Longrightarrow> strncpy src n = take n (c_str src)"
  by (simp add: strncpy_def strlen_def)







section \<open>Insertion: the stored copy\<close>

text \<open>
  Claim C3.  A successful insertion is claimed to store \<open>min(len(s), 1024)\<close> bytes of \<open>s\<close>
  followed by a terminator.  The code allocates \<open>strnlen(s, 1024) + 1\<close> bytes and fills
  them with \<^verbatim>\<open>strncpy\<close>, which stores no terminator when the string is longer than the
  buffer: for a string of 2000 bytes \<open>a\<close>, both \<^verbatim>\<open>q_insert_head\<close> and \<^verbatim>\<open>q_insert_tail\<close>
  succeed and leave a buffer of 1025 bytes \<open>a\<close> with no NUL byte in it.
\<close>

theorem insert_long_string_unterminated:
  "q_insert_head (queue_of 1 []) 1 (replicate 2000 CHR ''a'' @ [NUL]) 2 3 =
     (list_add ((malloc (malloc (queue_of 1 []) 2) 3)
        \<lparr>val := (\<lambda>a. NULL)(2 := 3), bytes := (\<lambda>a. [])(3 := replicate 1025 CHR ''a'')\<rparr>) 2 1, True)
   \<and> q_insert_tail (queue_of 1 []) 1 (replicate 2000 CHR ''a'' @ [NUL]) 2 3 =
     (list_add_tail ((malloc (malloc (queue_of 1 []) 2) 3)
        \<lparr>val := (\<lambda>a. NULL)(2 := 3), bytes := (\<lambda>a. [])(3 := replicate 1025 CHR ''a'')\<rparr>) 2 1, True)
   \<and> bytes (fst (q_insert_head (queue_of 1 []) 1 (replicate 2000 CHR ''a'' @ [NUL]) 2 3)) 3 =
       replicate 1025 CHR ''a''
   \<and> bytes (fst (q_insert_tail (queue_of 1 []) 1 (replicate 2000 CHR ''a'' @ [NUL]) 2 3)) 3 =
       replicate 1025 CHR ''a''
   \<and> \<not> is_c_string (replicate 1025 CHR ''a'')"
proof -
  have "c_str (replicate 2000 CHR ''a'' @ NUL # []) = replicate 2000 CHR ''a''"
    by (rule c_str_append_NUL) simp
  then have s: "strncpy (replicate 2000 CHR ''a'' @ [NUL])
                  (Suc (strnlen (replicate 2000 CHR ''a'' @ [NUL]) 1024)) =
                replicate 1025 CHR ''a''"
    by (simp add: strncpy_def strnlen_def strlen_def)
  show ?thesis
    by (simp add: q_insert_head_def q_insert_tail_def queue_of_def Let_def malloc_def
        list_add_def list_add_tail_def s is_c_string_def)
qed

section \<open>Removal: the copy into the caller's buffer\<close>




section \<open>Rings: lemmas\<close>

lemma path_append: "path f x (as @ bs) z = (\<exists>y. path f x as y \<and> path f y bs z)"
  by (induction as arbitrary: x) auto

lemma path_append_Cons [simp]:
  "path f x (as @ b # bs) z = (path f x as b \<and> path f (f b) bs z)"
  by (induction as arbitrary: x) auto

lemma path_upd [simp]: "a \<notin> set as \<Longrightarrow> path (f(a := v)) x as y = path f x as y"
  by (induction as arbitrary: x) auto

lemma path_cong: "(\<And>a. a \<in> set as \<Longrightarrow> f a = g a) \<Longrightarrow> path f x as y = path g x as y"
  by (induction as arbitrary: x) auto

lemma path_unique: "path f x as y \<Longrightarrow> path f x bs y \<Longrightarrow> y \<notin> set as \<Longrightarrow> y \<notin> set bs \<Longrightarrow> as = bs"
proof (induction as arbitrary: x bs)
  case Nil
  then show ?case by (cases bs) auto
next
  case (Cons a as)
  then show ?case by (cases bs) auto
qed

lemma ring_empty: "ring h head [] = (head \<noteq> NULL \<and> nxt h head = head \<and> prv h head = head)"
  by (auto simp: ring_def)

lemma ring_distinct: "ring h head xs \<Longrightarrow> distinct (head # xs)"
  and ring_head_not_NULL: "ring h head xs \<Longrightarrow> head \<noteq> NULL"
  and ring_not_NULL: "ring h head xs \<Longrightarrow> NULL \<notin> set xs"
  by (simp_all add: ring_def)

lemma ring_unique:
  assumes "ring h head xs" and "ring h head ys"
  shows "xs = ys"
proof -
  have "path (nxt h) (nxt h head) xs head" "path (nxt h) (nxt h head) ys head"
    "head \<notin> set xs" "head \<notin> set ys"
    using assms by (auto simp: ring_def)
  then show ?thesis by (rule path_unique)
qed

lemma ring_cong:
  assumes "\<And>a. a \<in> set (head # xs) \<Longrightarrow> nxt h' a = nxt h a \<and> prv h' a = prv h a"
  shows "ring h' head xs = ring h head xs"
proof -
  have "path (nxt h') head (head # xs) head = path (nxt h) head (head # xs) head"
    by (rule path_cong) (use assms in auto)
  moreover have
    "path (prv h') head (head # rev xs) head = path (prv h) head (head # rev xs) head"
    by (rule path_cong) (use assms in auto)
  ultimately show ?thesis by (simp add: ring_def)
qed

lemma ring_nxt_mid: "ring h head (as @ x # bs) \<Longrightarrow> nxt h x = hd (bs @ [head])"
  unfolding ring_def by (cases bs) auto

lemma ring_prv_mid: "ring h head (as @ x # bs) \<Longrightarrow> prv h x = last (head # as)"
  unfolding ring_def by (cases as rule: rev_cases) auto

lemma ring_nxt_head: "ring h head xs \<Longrightarrow> nxt h head = hd (xs @ [head])"
  unfolding ring_def by (cases xs) auto

lemma ring_prv_head: "ring h head xs \<Longrightarrow> prv h head = last (head # xs)"
  unfolding ring_def by (cases xs rule: rev_cases) auto

lemma ring_nxt_nth:
  assumes "ring h head xs" and "i < length xs"
  shows "nxt h (xs ! i) = (xs @ [head]) ! Suc i"
proof -
  have xs: "xs = take i xs @ xs ! i # drop (Suc i) xs"
    using assms(2) by (rule id_take_nth_drop)
  have "nxt h (xs ! i) = hd (drop (Suc i) xs @ [head])"
    using assms(1) xs ring_nxt_mid by metis
  also have "\<dots> = (xs @ [head]) ! Suc i"
    using assms(2) by (cases "Suc i < length xs") (auto simp: hd_drop_conv_nth nth_append)
  finally show ?thesis .
qed

lemma ring_prv_nth:
  assumes "ring h head xs" and "i < length xs"
  shows "prv h (xs ! i) = (head # xs) ! i"
proof -
  have xs: "xs = take i xs @ xs ! i # drop (Suc i) xs"
    using assms(2) by (rule id_take_nth_drop)
  have "prv h (xs ! i) = last (head # take i xs)"
    using assms(1) xs ring_prv_mid by metis
  also have "\<dots> = (head # xs) ! i"
    using assms(2) by (cases i) (auto simp: take_Suc_conv_app_nth)
  finally show ?thesis .
qed

lemma ring_nth_head:
  assumes "ring h head xs" and "i \<le> length xs"
  shows "((xs @ [head]) ! i = head) = (i = length xs)"
  using assms by (auto simp: ring_def nth_append)

lemma ring_nxt_cyc:
  assumes "ring h head xs" and "i \<le> length xs"
  shows "nxt h ((head # xs) ! i) = (xs @ [head]) ! i"
  using assms ring_nxt_head [of h head xs] ring_nxt_nth [of h head xs "i - 1"]
  by (cases i; cases xs) auto

subsection \<open>Unlinking and inserting\<close>

lemma links_list_del [simp]:
  "val (list_del h x) = val h" "bytes (list_del h x) = bytes h" "live (list_del h x) = live h"
  by (simp_all add: list_del_def Let_def)

lemma links_list_add [simp]:
  "val (list_add h n p) = val h" "bytes (list_add h n p) = bytes h" "live (list_add h n p) = live h"
  by (simp_all add: list_add_def Let_def)

lemma links_list_add_tail [simp]:
  "val (list_add_tail h n p) = val h" "bytes (list_add_tail h n p) = bytes h"
  "live (list_add_tail h n p) = live h"
  by (simp_all add: list_add_tail_def Let_def)

lemma ring_del:
  assumes "ring h head (as @ x # bs)"
  shows "ring (list_del h x) head (as @ bs)"
proof -
  let ?p = "last (head # as)" and ?s = "hd (bs @ [head])"
  have nx: "nxt h x = ?s" and px: "prv h x = ?p"
    using assms ring_nxt_mid ring_prv_mid by auto
  have n': "nxt (list_del h x) = (nxt h)(?p := ?s)"
    and p': "prv (list_del h x) = (prv h)(?s := ?p)"
    by (simp_all add: list_del_def Let_def nx px del: last.simps)
  show ?thesis
    using assms unfolding ring_def n' p'
    by (cases as rule: rev_cases; cases bs) (auto simp: path_append)
qed

lemma ring_add:
  assumes "ring h head (as @ bs)" "n \<noteq> NULL" "n \<notin> set (head # as @ bs)"
  shows "ring (list_add h n (last (head # as))) head (as @ n # bs)"
proof -
  let ?p = "last (head # as)" and ?s = "hd (bs @ [head])"
  have np: "nxt h ?p = ?s"
    using assms(1) ring_nxt_head [of h head bs]
      ring_nxt_mid [of h head "butlast as" "last as" bs]
    by (cases as rule: rev_cases) auto
  have n': "nxt (list_add h n ?p) = (nxt h)(n := ?s, ?p := n)"
    and p': "prv (list_add h n ?p) = (prv h)(?s := n, n := ?p)"
    by (simp_all add: list_add_def Let_def np del: last.simps)
  show ?thesis
    using assms unfolding ring_def n' p'
    by (cases as rule: rev_cases; cases bs) (auto simp: path_append)
qed

lemma ring_add_tail:
  assumes "ring h head (as @ bs)" "n \<noteq> NULL" "n \<notin> set (head # as @ bs)"
  shows "ring (list_add_tail h n (hd (bs @ [head]))) head (as @ n # bs)"
proof -
  let ?p = "last (head # as)" and ?s = "hd (bs @ [head])"
  have np: "prv h ?s = ?p"
    using assms(1) ring_prv_head [of h head as] ring_prv_mid [of h head as "hd bs" "tl bs"]
    by (cases bs) auto
  have n': "nxt (list_add_tail h n ?s) = (nxt h)(?p := n, n := ?s)"
    and p': "prv (list_add_tail h n ?s) = (prv h)(n := ?p, ?s := n)"
    by (simp_all add: list_add_tail_def Let_def np del: last.simps)
  show ?thesis
    using assms unfolding ring_def n' p'
    by (cases as rule: rev_cases; cases bs) (auto simp: path_append)
qed

subsection \<open>Frames\<close>

lemma relinked_refl [simp]: "relinked S h h"
  by (simp add: relinked_def)

lemma relinked_trans:
  "relinked S h h' \<Longrightarrow> relinked T h' h'' \<Longrightarrow> S \<union> T \<subseteq> U \<Longrightarrow> relinked U h h''"
  unfolding relinked_def by (simp add: subset_iff) metis

lemma relinked_mono: "relinked S h h' \<Longrightarrow> S \<subseteq> T \<Longrightarrow> relinked T h h'"
  unfolding relinked_def by (auto simp: subset_iff)

lemma relinked_ring:
  "relinked S h h' \<Longrightarrow> S \<inter> set (head # xs) = {} \<Longrightarrow> ring h' head xs = ring h head xs"
  by (rule ring_cong) (auto simp: relinked_def)

lemma relinked_str: "relinked S h h' \<Longrightarrow> str h' = str h"
  by (auto simp: relinked_def str_def fun_eq_iff)

lemma relinked_del:
  assumes "ring h head (as @ x # bs)"
  shows "relinked (set (head # as @ bs)) h (list_del h x)"
proof -
  have "nxt h x = hd (bs @ [head])" "prv h x = last (head # as)"
    using assms ring_nxt_mid ring_prv_mid by auto
  moreover have "hd (bs @ [head]) \<in> set (head # as @ bs)" "last (head # as) \<in> set (head # as @ bs)"
    by (cases bs; cases as rule: rev_cases; auto)+
  ultimately show ?thesis
    unfolding relinked_def list_del_def Let_def by (auto simp del: last.simps)
qed

lemma relinked_add:
  assumes "ring h head (as @ bs)"
  shows "relinked (set (n # head # as @ bs)) h (list_add h n (last (head # as)))"
proof -
  have "nxt h (last (head # as)) = hd (bs @ [head])"
    using assms(1) ring_nxt_head [of h head bs]
      ring_nxt_mid [of h head "butlast as" "last as" bs]
    by (cases as rule: rev_cases) auto
  moreover have "hd (bs @ [head]) \<in> set (head # as @ bs)" "last (head # as) \<in> set (head # as @ bs)"
    by (cases bs; cases as rule: rev_cases; auto)+
  ultimately show ?thesis
    unfolding relinked_def list_add_def Let_def by (auto simp del: last.simps)
qed

lemma relinked_add_tail:
  assumes "ring h head (as @ bs)"
  shows "relinked (set (n # head # as @ bs)) h (list_add_tail h n (hd (bs @ [head])))"
proof -
  have "prv h (hd (bs @ [head])) = last (head # as)"
    using assms(1) ring_prv_head [of h head as] ring_prv_mid [of h head as "hd bs" "tl bs"]
    by (cases bs) auto
  moreover have "hd (bs @ [head]) \<in> set (head # as @ bs)" "last (head # as) \<in> set (head # as @ bs)"
    by (cases bs; cases as rule: rev_cases; auto)+
  ultimately show ?thesis
    unfolding relinked_def list_add_tail_def Let_def by (auto simp del: last.simps)
qed

section \<open>Reversal\<close>

lemma swap_links_empty [simp]: "swap_links {} h = h"
  by (simp add: swap_links_def)

lemma swap_links_twice [simp]: "swap_links S (swap_links S h) = h"
  by (simp add: swap_links_def fun_eq_iff)

lemma swap_links_insert:
  "a \<notin> S \<Longrightarrow>
   swap_links (insert a S) h =
     (let h0 = swap_links S h; h1 = h0\<lparr>nxt := (nxt h0)(a := prv h0 a)\<rparr>
      in h1\<lparr>prv := (prv h1)(a := nxt h0 a)\<rparr>)"
  by (simp add: swap_links_def Let_def fun_eq_iff)

lemma ring_swap_links:
  assumes "ring h head xs"
  shows "ring (swap_links (set (head # xs)) h) head (rev xs)"
proof -
  let ?h = "swap_links (set (head # xs)) h"
  have "path (nxt ?h) head (head # rev xs) head = path (prv h) head (head # rev xs) head"
    by (rule path_cong) (auto simp: swap_links_def)
  moreover have "path (prv ?h) head (head # xs) head = path (nxt h) head (head # xs) head"
    by (rule path_cong) (auto simp: swap_links_def)
  ultimately show ?thesis
    using assms by (simp add: ring_def)
qed

lemma ring_empty_iff: "ring h head xs \<Longrightarrow> (nxt h head = head) = (xs = [])"
  using ring_nxt_head [of h head xs] by (cases xs) (auto simp: ring_def)

lemma nth_notin_take: "distinct C \<Longrightarrow> k < length C \<Longrightarrow> C ! k \<notin> set (take k C)"
  by (auto simp: in_set_conv_nth nth_eq_iff_index_eq)

lemma q_reverse_loop_correct:
  assumes "ring h head xs" and "k \<le> length xs"
  shows "q_reverse_loop (swap_links (set (take k (head # xs))) h) head ((head # xs) ! k) =
         Some (swap_links (set (head # xs)) h)"
  using assms(2)
proof (induction "length xs - k" arbitrary: k)
  case 0
  then have k: "k = length xs" by simp
  let ?C = "head # xs" and ?S = "set (take k (head # xs))"
  have notin: "?C ! k \<notin> ?S"
    using ring_distinct [OF assms(1)] k by (intro nth_notin_take) auto
  have nx: "nxt h (?C ! k) = head"
    using ring_nxt_cyc [OF assms(1), of k] k by simp
  have S: "insert (?C ! k) ?S = set ?C"
    using k by (metis length_Cons lessI set_append list.simps(15) take_Suc_conv_app_nth
        take_all order_refl Un_insert_right sup_bot.right_neutral list.set(1))
  have "swap_links (set ?C) h = swap_links (insert (?C ! k) ?S) h"
    by (simp only: S)
  then show ?case
    using notin nx
    by (subst q_reverse_loop.simps) (simp add: swap_links_insert Let_def, simp add: swap_links_def)
next
  case (Suc n)
  then have k: "k < length xs" by simp
  let ?C = "head # xs" and ?S = "set (take k (head # xs))"
  have notin: "?C ! k \<notin> ?S"
    using ring_distinct [OF assms(1)] k by (intro nth_notin_take) auto
  have nx: "nxt h (?C ! k) = ?C ! Suc k"
    using ring_nxt_cyc [OF assms(1), of k] k by (simp add: nth_append)
  have ne: "?C ! Suc k \<noteq> head"
    using ring_distinct [OF assms(1)] k by auto
  have "take (Suc k) ?C = take k ?C @ [?C ! k]"
    using k by (intro take_Suc_conv_app_nth) simp
  then have S: "insert (?C ! k) ?S = set (take (Suc k) ?C)"
    by (metis Un_insert_right list.set(1,2) set_append sup_bot.right_neutral)
  have IH: "q_reverse_loop (swap_links (set (take (Suc k) ?C)) h) head (?C ! Suc k) =
        Some (swap_links (set ?C) h)"
    using Suc.hyps(1) [of "Suc k"] Suc.hyps(2) k by simp
  have step: "q_reverse_loop (swap_links ?S h) head (?C ! k) =
        q_reverse_loop (swap_links (insert (?C ! k) ?S) h) head (?C ! Suc k)"
    using notin nx ne
    by (subst q_reverse_loop.simps) (simp add: swap_links_insert Let_def, simp add: swap_links_def)
  show ?case
    unfolding step S by (rule IH)
qed

lemma q_reverse_correct:
  assumes "ring h head xs"
  shows "\<exists>h'. q_reverse h head = Some h' \<and> ring h' head (rev xs) \<and>
           relinked (set (head # xs)) h h' \<and> q_reverse h' head = Some h"
proof (cases xs)
  case Nil
  then show ?thesis
    using assms by (auto simp: q_reverse_def ring_def)
next
  case (Cons x xs')
  let ?h = "swap_links (set (head # xs)) h"
  have r': "ring ?h head (rev xs)" using assms by (rule ring_swap_links)
  have ne: "head \<noteq> NULL" "nxt h head \<noteq> head" "nxt ?h head \<noteq> head"
    using ring_head_not_NULL [OF assms] ring_empty_iff [OF assms] ring_empty_iff [OF r'] Cons
    by simp_all
  have 1: "q_reverse h head = Some ?h"
    using q_reverse_loop_correct [OF assms, of 0] ne by (simp add: q_reverse_def)
  have 2: "q_reverse ?h head = Some (swap_links (set (head # rev xs)) ?h)"
    using q_reverse_loop_correct [OF r', of 0] ne by (simp add: q_reverse_def)
  have 3: "relinked (set (head # xs)) h ?h"
    by (simp add: relinked_def swap_links_def)
  show ?thesis
    using 1 2 3 r' by simp
qed

text \<open>
  Claim C8.  On every valid queue \<^verbatim>\<open>q_reverse\<close> returns, the queue then holds the same
  nodes in reverse order, and a second \<^verbatim>\<open>q_reverse\<close> returns the heap it started from:
  the original order is restored.
\<close>

theorem q_reverse_twice:
  assumes "ring h head xs"
  shows "\<exists>h' h''. q_reverse h head = Some h' \<and> ring h' head (rev xs) \<and>
           q_reverse h' head = Some h'' \<and> ring h'' head xs \<and> h'' = h"
  using q_reverse_correct [OF assms] assms by auto

theorem q_reverse_twice_witness:
  "ring (queue_of 1 [(2, 3, ''a'' @ [NUL]), (4, 5, ''b'' @ [NUL])]) 1 [2, 4] \<and>
   (\<exists>h' h''. q_reverse (queue_of 1 [(2, 3, ''a'' @ [NUL]), (4, 5, ''b'' @ [NUL])]) 1 = Some h' \<and>
      ring h' 1 [4, 2] \<and> q_reverse h' 1 = Some h'' \<and> ring h'' 1 [2, 4] \<and>
      h'' = queue_of 1 [(2, 3, ''a'' @ [NUL]), (4, 5, ''b'' @ [NUL])])"
proof -
  have r: "ring (queue_of 1 [(2, 3, ''a'' @ [NUL]), (4, 5, ''b'' @ [NUL])]) 1 [2, 4]"
    by (simp add: ring_def queue_of_def)
  show ?thesis
    using q_reverse_twice [OF r] r by simp
qed

section \<open>Deleting the middle element\<close>

lemma links_q_release_element [simp]:
  "nxt (q_release_element h e) = nxt h" "prv (q_release_element h e) = prv h"
  "val (q_release_element h e) = val h" "bytes (q_release_element h e) = bytes h"
  "live (q_release_element h e) = live h - {val h e} - {e}"
  by (simp_all add: q_release_element_def free_def)

lemma ring_q_release_element [simp]: "ring (q_release_element h e) head xs = ring h head xs"
  by (rule ring_cong) simp

lemma q_delete_mid_loop_correct:
  assumes "ring h head xs" and "2 * i \<le> length xs"
  shows "q_delete_mid_loop h head ((head # xs) ! i) ((xs @ [head]) ! (2 * i)) =
         Some ((head # xs) ! (length xs div 2))"
  using assms(2)
proof (induction "length xs - 2 * i" arbitrary: i rule: less_induct)
  case less
  let ?n = "length xs" and ?cyc = "xs @ [head]"
  show ?case
  proof (cases "2 * i < ?n \<and> 2 * i + 1 < ?n")
    case True
    have f: "?cyc ! (2 * i) \<noteq> head"
      using ring_nth_head [OF assms(1), of "2 * i"] True by simp
    have nf: "nxt h (?cyc ! (2 * i)) = ?cyc ! (2 * i + 1)"
      using ring_nxt_nth [OF assms(1), of "2 * i"] True by (simp add: nth_append)
    have nf': "?cyc ! (2 * i + 1) \<noteq> head"
      using ring_nth_head [OF assms(1), of "2 * i + 1"] True by simp
    have nnf: "nxt h (?cyc ! (2 * i + 1)) = ?cyc ! (2 * Suc i)"
      using ring_nxt_nth [OF assms(1), of "2 * i + 1"] True by (simp add: nth_append)
    have ni: "nxt h ((head # xs) ! i) = (head # xs) ! Suc i"
      using ring_nxt_cyc [OF assms(1), of i] True by (simp add: nth_append)
    have "q_delete_mid_loop h head ((head # xs) ! i) (?cyc ! (2 * i)) =
          q_delete_mid_loop h head ((head # xs) ! Suc i) (?cyc ! (2 * Suc i))"
      using f nf nf' nnf ni by (subst q_delete_mid_loop.simps) simp
    also have "\<dots> = Some ((head # xs) ! (?n div 2))"
      using True by (intro less.hyps) auto
    finally show ?thesis .
  next
    case False
    then consider "2 * i = ?n" | "2 * i + 1 = ?n"
      using less.prems by linarith
    then have i: "i = ?n div 2" by cases auto
    have "\<not> (?cyc ! (2 * i) \<noteq> head \<and> nxt h (?cyc ! (2 * i)) \<noteq> head)"
    proof (cases "2 * i = ?n")
      case True
      then show ?thesis by (simp add: nth_append)
    next
      case F: False
      then have lt: "2 * i < ?n" and eq: "Suc (2 * i) = ?n" using False less.prems by auto
      have "nxt h (?cyc ! (2 * i)) = ?cyc ! Suc (2 * i)"
        using ring_nxt_nth [OF assms(1) lt] lt by (simp add: nth_append)
      then show ?thesis using eq by (simp add: nth_append)
    qed
    then show ?thesis
      using i by (subst q_delete_mid_loop.simps) auto
  qed
qed

lemma q_delete_mid_correct:
  assumes "ring h head xs" and "xs \<noteq> []"
  defines "m \<equiv> length xs div 2"
  shows "q_delete_mid h head =
           Some (q_release_element (list_del h (xs ! m)) (xs ! m), True)"
    and "ring (q_release_element (list_del h (xs ! m)) (xs ! m)) head (take m xs @ drop (Suc m) xs)"
proof -
  have m: "m < length xs" using assms(2) by (simp add: m_def)
  have ne: "head \<noteq> NULL" "\<not> list_empty h head"
    using ring_head_not_NULL [OF assms(1)] ring_empty_iff [OF assms(1)] assms(2)
    by (simp_all add: list_empty_def)
  have n0: "nxt h head = (xs @ [head]) ! (2 * 0)"
    using ring_nxt_cyc [OF assms(1), of 0] by simp
  have loop: "q_delete_mid_loop h head head (nxt h head) = Some ((head # xs) ! m)"
    using q_delete_mid_loop_correct [OF assms(1), of 0] unfolding n0 m_def by simp
  have tmp: "nxt h ((head # xs) ! m) = xs ! m"
    using ring_nxt_cyc [OF assms(1), of m] m by (simp add: nth_append)
  show "q_delete_mid h head = Some (q_release_element (list_del h (xs ! m)) (xs ! m), True)"
    using ne loop tmp by (simp add: q_delete_mid_def Let_def)
  have "ring h head (take m xs @ xs ! m # drop (Suc m) xs)"
    using assms(1) m by (simp add: id_take_nth_drop [symmetric])
  then show "ring (q_release_element (list_del h (xs ! m)) (xs ! m)) head (take m xs @ drop (Suc m) xs)"
    using ring_del by simp
qed

text \<open>
  Claim C4, as stated, has \<^verbatim>\<open>q_delete_mid\<close> remove the element at index 2 of six.  On the
  queue with the six nodes \<open>2, 4, 6, 8, 10, 12\<close> the code unlinks and frees the node 8 at
  index 3 and keeps the node 6 at index 2.
\<close>

theorem q_delete_mid_six_removes_index_3:
  "q_delete_mid
     (queue_of 1 [(2, 3, ''v0'' @ [NUL]), (4, 5, ''v1'' @ [NUL]), (6, 7, ''v2'' @ [NUL]),
                  (8, 9, ''v3'' @ [NUL]), (10, 11, ''v4'' @ [NUL]), (12, 13, ''v5'' @ [NUL])]) 1 =
     Some (q_release_element
       (list_del
         (queue_of 1 [(2, 3, ''v0'' @ [NUL]), (4, 5, ''v1'' @ [NUL]), (6, 7, ''v2'' @ [NUL]),
                  (8, 9, ''v3'' @ [NUL]), (10, 11, ''v4'' @ [NUL]), (12, 13, ''v5'' @ [NUL])]) 8) 8, True)
   \<and> ring (q_release_element
       (list_del
         (queue_of 1 [(2, 3, ''v0'' @ [NUL]), (4, 5, ''v1'' @ [NUL]), (6, 7, ''v2'' @ [NUL]),
                  (8, 9, ''v3'' @ [NUL]), (10, 11, ''v4'' @ [NUL]), (12, 13, ''v5'' @ [NUL])]) 8) 8)
       1 [2, 4, 6, 10, 12]
   \<and> \<not> ring (q_release_element
       (list_del
         (queue_of 1 [(2, 3, ''v0'' @ [NUL]), (4, 5, ''v1'' @ [NUL]), (6, 7, ''v2'' @ [NUL]),
                  (8, 9, ''v3'' @ [NUL]), (10, 11, ''v4'' @ [NUL]), (12, 13, ''v5'' @ [NUL])]) 8) 8)
       1 [2, 4, 8, 10, 12]"
proof -
  let ?Q = "queue_of 1 [(2, 3, ''v0'' @ [NUL]), (4, 5, ''v1'' @ [NUL]), (6, 7, ''v2'' @ [NUL]),
                  (8, 9, ''v3'' @ [NUL]), (10, 11, ''v4'' @ [NUL]), (12, 13, ''v5'' @ [NUL])]"
  have r: "ring ?Q 1 [2, 4, 6, 8, 10, 12]"
    by (simp add: ring_def queue_of_def)
  have m: "length [2, 4, 6, 8, 10, 12 :: addr] div 2 = 3" by simp
  have 1: "q_delete_mid ?Q 1 = Some (q_release_element (list_del ?Q 8) 8, True)"
    using q_delete_mid_correct(1) [OF r, unfolded m] by simp
  have 2: "ring (q_release_element (list_del ?Q 8) 8) 1 [2, 4, 6, 10, 12]"
    using q_delete_mid_correct(2) [OF r, unfolded m] by simp
  have 3: "\<not> ring (q_release_element (list_del ?Q 8) 8) 1 [2, 4, 8, 10, 12]"
    using ring_unique [OF 2] by fastforce
  show ?thesis using 1 2 3 by blast
qed

text \<open>
  Claim C4, amended: on every queue of six elements \<open>[v0,v1,v2,v3,v4,v5]\<close>
  \<^verbatim>\<open>q_delete_mid\<close> unlinks and frees \<open>v3\<close> (index 3, which is 6 div 2), leaving
  \<open>[v0,v1,v2,v4,v5]\<close>; on every queue of five elements \<open>[v0,v1,v2,v3,v4]\<close> it unlinks and
  frees \<open>v2\<close> (index 2), leaving \<open>[v0,v1,v3,v4]\<close>.  Freeing an element releases its string
  buffer and the element.
\<close>

theorem q_delete_mid_six_five:
  "(ring h head [v0, v1, v2, v3, v4, v5] \<longrightarrow>
      (\<exists>h'. q_delete_mid h head = Some (h', True) \<and> ring h' head [v0, v1, v2, v4, v5] \<and>
            live h' = live h - {val h v3} - {v3})) \<and>
   (ring h head [v0, v1, v2, v3, v4] \<longrightarrow>
      (\<exists>h'. q_delete_mid h head = Some (h', True) \<and> ring h' head [v0, v1, v3, v4] \<and>
            live h' = live h - {val h v2} - {v2}))"
proof (intro conjI impI)
  assume r: "ring h head [v0, v1, v2, v3, v4, v5]"
  show "\<exists>h'. q_delete_mid h head = Some (h', True) \<and> ring h' head [v0, v1, v2, v4, v5] \<and>
            live h' = live h - {val h v3} - {v3}"
  proof -
    have m: "length [v0, v1, v2, v3, v4, v5] div 2 = 3" by simp
    show ?thesis
      using q_delete_mid_correct [OF r, unfolded m] by simp
  qed
next
  assume r: "ring h head [v0, v1, v2, v3, v4]"
  show "\<exists>h'. q_delete_mid h head = Some (h', True) \<and> ring h' head [v0, v1, v3, v4] \<and>
            live h' = live h - {val h v2} - {v2}"
  proof -
    have m: "length [v0, v1, v2, v3, v4] div 2 = 2" by simp
    show ?thesis
      using q_delete_mid_correct [OF r, unfolded m] by simp
  qed
qed

theorem q_delete_mid_six_five_witness:
  "ring (queue_of 1 [(2, 3, ''v0'' @ [NUL]), (4, 5, ''v1'' @ [NUL]), (6, 7, ''v2'' @ [NUL]),
                  (8, 9, ''v3'' @ [NUL]), (10, 11, ''v4'' @ [NUL]), (12, 13, ''v5'' @ [NUL])]) 1
      [2, 4, 6, 8, 10, 12] \<and>
   (\<exists>h'. q_delete_mid
        (queue_of 1 [(2, 3, ''v0'' @ [NUL]), (4, 5, ''v1'' @ [NUL]), (6, 7, ''v2'' @ [NUL]),
                  (8, 9, ''v3'' @ [NUL]), (10, 11, ''v4'' @ [NUL]), (12, 13, ''v5'' @ [NUL])]) 1 =
        Some (h', True) \<and> ring h' 1 [2, 4, 6, 10, 12] \<and>
        live h' = {1, 2, 3, 4, 5, 6, 7, 10, 11, 12, 13}) \<and>
   ring (queue_of 1 [(2, 3, ''v0'' @ [NUL]), (4, 5, ''v1'' @ [NUL]), (6, 7, ''v2'' @ [NUL]),
                  (8, 9, ''v3'' @ [NUL]), (10, 11, ''v4'' @ [NUL])]) 1 [2, 4, 6, 8, 10] \<and>
   (\<exists>h'. q_delete_mid
        (queue_of 1 [(2, 3, ''v0'' @ [NUL]), (4, 5, ''v1'' @ [NUL]), (6, 7, ''v2'' @ [NUL]),
                  (8, 9, ''v3'' @ [NUL]), (10, 11, ''v4'' @ [NUL])]) 1 =
        Some (h', True) \<and> ring h' 1 [2, 4, 8, 10] \<and>
        live h' = {1, 2, 3, 4, 5, 8, 9, 10, 11})"
proof -
  let ?Q6 = "queue_of 1 [(2, 3, ''v0'' @ [NUL]), (4, 5, ''v1'' @ [NUL]), (6, 7, ''v2'' @ [NUL]),
                  (8, 9, ''v3'' @ [NUL]), (10, 11, ''v4'' @ [NUL]), (12, 13, ''v5'' @ [NUL])]"
  let ?Q5 = "queue_of 1 [(2, 3, ''v0'' @ [NUL]), (4, 5, ''v1'' @ [NUL]), (6, 7, ''v2'' @ [NUL]),
                  (8, 9, ''v3'' @ [NUL]), (10, 11, ''v4'' @ [NUL])]"
  have r6: "ring ?Q6 1 [2, 4, 6, 8, 10, 12]" by (simp add: ring_def queue_of_def)
  have r5: "ring ?Q5 1 [2, 4, 6, 8, 10]" by (simp add: ring_def queue_of_def)
  have l6: "live ?Q6 - {val ?Q6 8} - {8} = {1, 2, 3, 4, 5, 6, 7, 10, 11, 12, 13}"
    by (auto simp: queue_of_def)
  have l5: "live ?Q5 - {val ?Q5 6} - {6} = {1, 2, 3, 4, 5, 8, 9, 10, 11}"
    by (auto simp: queue_of_def)
  have "\<exists>h'. q_delete_mid ?Q6 1 = Some (h', True) \<and> ring h' 1 [2, 4, 6, 10, 12] \<and>
        live h' = {1, 2, 3, 4, 5, 6, 7, 10, 11, 12, 13}"
    using q_delete_mid_six_five [of ?Q6 1 2 4 6 8 10 12] r6 unfolding l6 [symmetric] by blast
  moreover have "\<exists>h'. q_delete_mid ?Q5 1 = Some (h', True) \<and> ring h' 1 [2, 4, 8, 10] \<and>
        live h' = {1, 2, 3, 4, 5, 8, 9, 10, 11}"
    using q_delete_mid_six_five [of ?Q5 1 2 4 6 8 10] r5 unfolding l5 [symmetric] by blast
  ultimately show ?thesis using r6 r5 by blast
qed

section \<open>Deleting duplicates\<close>

lemma strcmp_refl [simp]: "strcmp s s = 0"
  by (induction s) auto

lemma q_new_ok:
  assumes "p \<noteq> NULL"
  shows "q_new h p = (INIT_LIST_HEAD (malloc h p) p, p)"
    and "ring (INIT_LIST_HEAD (malloc h p) p) p []"
    and "p \<notin> set (head # xs) \<Longrightarrow>
         ring (INIT_LIST_HEAD (malloc h p) p) head xs = ring h head xs"
    and "live (INIT_LIST_HEAD (malloc h p) p) = insert p (live h)"
    and "val (INIT_LIST_HEAD (malloc h p) p) = val h"
    and "bytes (INIT_LIST_HEAD (malloc h p) p) = bytes h"
proof -
  show "q_new h p = (INIT_LIST_HEAD (malloc h p) p, p)"
    using assms by (simp add: q_new_def)
  show "ring (INIT_LIST_HEAD (malloc h p) p) p []"
    using assms by (simp add: ring_empty INIT_LIST_HEAD_def)
  show "ring (INIT_LIST_HEAD (malloc h p) p) head xs = ring h head xs"
    if "p \<notin> set (head # xs)"
    by (rule ring_cong) (use that in \<open>auto simp: INIT_LIST_HEAD_def malloc_def\<close>)
  show "live (INIT_LIST_HEAD (malloc h p) p) = insert p (live h)"
    "val (INIT_LIST_HEAD (malloc h p) p) = val h"
    "bytes (INIT_LIST_HEAD (malloc h p) p) = bytes h"
    using assms by (simp_all add: INIT_LIST_HEAD_def malloc_def)
qed

lemma list_move_rings:
  assumes "ring h head (as @ x # bs)" and "ring h dup D"
    and "set (head # as @ x # bs) \<inter> set (dup # D) = {}"
  shows "ring (list_move h x dup) head (as @ bs)"
    and "ring (list_move h x dup) dup (x # D)"
    and "relinked (set (head # as @ x # bs) \<union> set (dup # D)) h (list_move h x dup)"
proof -
  let ?h1 = "list_del h x"
  have x: "x \<noteq> NULL" "x \<notin> set (head # as @ bs)" "x \<notin> set (dup # D)"
    using assms by (auto simp: ring_def)
  have r1: "ring ?h1 head (as @ bs)" using assms(1) by (rule ring_del)
  have f1: "relinked (set (head # as @ bs)) h ?h1" using assms(1) by (rule relinked_del)
  have d1: "ring ?h1 dup D"
    using relinked_ring [OF f1, of dup D] assms(2,3) by auto
  have r2: "ring (list_add ?h1 x (last (dup # []))) dup ([] @ x # D)"
    using d1 x by (intro ring_add) auto
  have "relinked (set (x # dup # [] @ D)) ?h1 (list_add ?h1 x (last (dup # [])))"
    using d1 by (intro relinked_add) auto
  then have f2: "relinked (set (x # dup # D)) ?h1 (list_add ?h1 x dup)"
    by simp
  show "ring (list_move h x dup) dup (x # D)"
    using r2 by (simp add: list_move_def)
  show "ring (list_move h x dup) head (as @ bs)"
    using relinked_ring [OF f2, of head "as @ bs"] r1 assms(3) x
    by (auto simp: list_move_def)
  show "relinked (set (head # as @ x # bs) \<union> set (dup # D)) h (list_move h x dup)"
    unfolding list_move_def by (rule relinked_trans [OF f1 f2]) auto
qed

lemma q_delete_dup_loop_correct:
  assumes "ring h head (x # R)" and "ring h dup D"
    and "set (head # x # R) \<inter> set (dup # D) = {}"
  shows "\<exists>h'. q_delete_dup_loop h head dup (val h x) (hd (R @ [head])) (nxt h (hd (R @ [head])))
               = Some h' \<and>
           ring h' head [x] \<and> ring h' dup (rev R @ D) \<and>
           relinked (set (head # x # R) \<union> set (dup # D)) h h'"
  using assms
proof (induction R arbitrary: h D)
  case Nil
  then show ?case by (subst q_delete_dup_loop.simps) simp
next
  case (Cons r R)
  let ?h' = "list_move h r dup"
  have dup: "dup \<noteq> NULL" using Cons.prems(2) by (rule ring_head_not_NULL)
  have r: "r \<noteq> head" using Cons.prems(1) by (auto simp: ring_def)
  have hx: "nxt h head = x" using ring_nxt_head [OF Cons.prems(1)] by simp
  have nr: "nxt h r = hd (R @ [head])"
    using ring_nxt_mid [of h head "[x]" r R] Cons.prems(1) by simp
  have m: "ring ?h' head ([x] @ R)" "ring ?h' dup (r # D)"
    "relinked (set (head # [x] @ r # R) \<union> set (dup # D)) h ?h'"
    using list_move_rings [of h head "[x]" r R dup D] Cons.prems by simp_all
  have v: "val ?h' = val h" using m(3) by (simp add: relinked_def)
  obtain h'' where h'':
    "q_delete_dup_loop ?h' head dup (val ?h' x) (hd (R @ [head])) (nxt ?h' (hd (R @ [head])))
       = Some h''"
    "ring h'' head [x]" "ring h'' dup (rev R @ r # D)"
    "relinked (set (head # x # R) \<union> set (dup # r # D)) ?h' h''"
    using Cons.IH [of ?h' "r # D"] m(1,2) Cons.prems(1,3) by (auto simp: ring_def)
  have "q_delete_dup_loop h head dup (val h x) r (nxt h r) = Some h''"
    using r hx dup h''(1) nr v by (subst q_delete_dup_loop.simps) (simp add: Let_def)
  moreover have "relinked (set (head # x # r # R) \<union> set (dup # D)) h h''"
    by (rule relinked_trans [OF m(3) h''(4)]) auto
  ultimately show ?case
    using h''(2,3) nr by simp
qed

lemma q_free_loop_correct:
  assumes "ring h l D"
  shows "\<exists>h'. q_free_loop h l (hd (D @ [l])) = Some h' \<and> ring h' l [] \<and>
           live h' = live h - set D - val h ` set D \<and>
           val h' = val h \<and> bytes h' = bytes h \<and>
           (\<forall>a. a \<notin> set (l # D) \<longrightarrow> nxt h' a = nxt h a \<and> prv h' a = prv h a)"
  using assms
proof (induction D arbitrary: h)
  case Nil
  then show ?case
    by (subst q_free_loop.simps) (simp add: list_empty_def ring_empty)
next
  case (Cons d D)
  let ?h1 = "q_release_element (list_del h d) d"
  have ne: "\<not> list_empty h l"
    using ring_empty_iff [OF Cons.prems] by (simp add: list_empty_def)
  have nd: "nxt h d = hd (D @ [l])"
    using ring_nxt_mid [of h l "[]" d D] Cons.prems by simp
  have r1: "ring ?h1 l D"
    using ring_del [of h l "[]" d D] Cons.prems by simp
  have f1: "relinked (set (l # D)) h (list_del h d)"
    using relinked_del [of h l "[]" d D] Cons.prems by simp
  obtain h' where h':
    "q_free_loop ?h1 l (hd (D @ [l])) = Some h'" "ring h' l []"
    "live h' = live ?h1 - set D - val ?h1 ` set D" "val h' = val ?h1" "bytes h' = bytes ?h1"
    "\<forall>a. a \<notin> set (l # D) \<longrightarrow> nxt h' a = nxt ?h1 a \<and> prv h' a = prv ?h1 a"
    using Cons.IH [OF r1] by blast
  have "q_free_loop h l d = Some h'"
    using ne nd h'(1) by (subst q_free_loop.simps) (simp add: Let_def)
  moreover have "live h' = live h - set (d # D) - val h ` set (d # D)"
    using h'(3) by auto
  moreover have "\<forall>a. a \<notin> set (l # d # D) \<longrightarrow> nxt h' a = nxt h a \<and> prv h' a = prv h a"
    using h'(6) f1 by (auto simp: relinked_def)
  ultimately show ?case
    using h'(2,4,5) by simp
qed

lemma q_delete_dup_correct:
  assumes "ring h head (x # R)" and "set (head # x # R) \<subseteq> live h" and "malloc_ok h p"
  shows "\<exists>h'. q_delete_dup h head p = Some (h', True) \<and> ring h' head [x] \<and>
           live h' = live h - set R - val h ` set R \<and> val h' = val h \<and> bytes h' = bytes h"
proof -
  let ?h1 = "INIT_LIST_HEAD (malloc h p) p"
  have p: "p \<noteq> NULL" "p \<notin> live h" "p \<notin> set (head # x # R)"
    using assms(2,3) by (auto simp: malloc_ok_def)
  have ne: "head \<noteq> NULL" "nxt h head \<noteq> head"
    using ring_head_not_NULL [OF assms(1)] ring_empty_iff [OF assms(1)] by simp_all
  note n = q_new_ok [OF p(1), where h = h]
  have r1: "ring ?h1 head (x # R)" using n(3) [of head "x # R"] p(3) assms(1) by simp
  have hx: "nxt ?h1 head = x" using ring_nxt_head [OF r1] by simp
  have nx: "nxt ?h1 x = hd (R @ [head])"
    using ring_nxt_mid [of ?h1 head "[]" x R] r1 by simp
  obtain h2 where h2:
    "q_delete_dup_loop ?h1 head p (val ?h1 x) (hd (R @ [head])) (nxt ?h1 (hd (R @ [head])))
       = Some h2"
    "ring h2 head [x]" "ring h2 p (rev R @ [])"
    "relinked (set (head # x # R) \<union> set (p # [])) ?h1 h2"
    using q_delete_dup_loop_correct [OF r1 n(2)] p(3) by auto
  obtain h3 where h3:
    "q_free_loop h2 p (hd (rev R @ [p])) = Some h3"
    "live h3 = live h2 - set (rev R) - val h2 ` set (rev R)" "val h3 = val h2"
    "bytes h3 = bytes h2"
    "\<forall>a. a \<notin> set (p # rev R) \<longrightarrow> nxt h3 a = nxt h2 a \<and> prv h3 a = prv h2 a"
    using q_free_loop_correct [of h2 p "rev R"] h2(3) by auto
  have np: "nxt h2 p = hd (rev R @ [p])" using ring_nxt_head [of h2 p "rev R"] h2(3) by simp
  have fr: "q_free h2 p = Some (free h3 p)"
    using p(1) h3(1) np by (simp add: q_free_def)
  have eq: "val h2 = val h" "bytes h2 = bytes h" "live h2 = insert p (live h)"
    using h2(4) n(4,5,6) by (simp_all add: relinked_def)
  have "q_delete_dup h head p = Some (free h3 p, True)"
    using ne n(1) hx nx h2(1) fr by (simp add: q_delete_dup_def Let_def)
  moreover have "ring (free h3 p) head [x]"
  proof -
    have "ring (free h3 p) head [x] = ring h2 head [x]"
      by (rule ring_cong) (use h3(5) assms(1) p(3) in \<open>auto simp: free_def ring_def\<close>)
    then show ?thesis using h2(2) by simp
  qed
  moreover have "live (free h3 p) = live h - set R - val h ` set R"
    using h3(2) eq p(2) by (auto simp: free_def)
  moreover have "val (free h3 p) = val h" "bytes (free h3 p) = bytes h"
    using h3(3,4) eq by (simp_all add: free_def)
  ultimately show ?thesis by blast
qed

text \<open>
  Claim C9.  On every valid queue with at least two elements, whatever strings they
  hold, \<^verbatim>\<open>q_delete_dup\<close> (its scratch queue allocated) returns \<^verbatim>\<open>true\<close> and leaves the
  queue holding the first element only; every other element and its string buffer have
  been freed.  The comparison reads the string of \<^verbatim>\<open>head->next\<close> on both sides, so it
  is always equal.
\<close>

theorem q_delete_dup_keeps_only_first:
  assumes "ring h head (x # y # ys)" and "set (head # x # y # ys) \<subseteq> live h"
    and "c_strings h (x # y # ys)" and "malloc_ok h p"
  shows "\<exists>h'. q_delete_dup h head p = Some (h', True) \<and> ring h' head [x] \<and>
           live h' = live h - set (y # ys) - val h ` set (y # ys) \<and>
           val h' = val h \<and> bytes h' = bytes h"
  using assms(1,2,4) by (rule q_delete_dup_correct)

theorem q_delete_dup_keeps_only_first_witness:
  "ring (queue_of 1 [(2, 3, ''a'' @ [NUL]), (4, 5, ''b'' @ [NUL]), (6, 7, ''b'' @ [NUL])]) 1
     [2, 4, 6] \<and>
   c_strings (queue_of 1 [(2, 3, ''a'' @ [NUL]), (4, 5, ''b'' @ [NUL]), (6, 7, ''b'' @ [NUL])])
     [2, 4, 6] \<and>
   malloc_ok (queue_of 1 [(2, 3, ''a'' @ [NUL]), (4, 5, ''b'' @ [NUL]), (6, 7, ''b'' @ [NUL])]) 9 \<and>
   (\<exists>h'. q_delete_dup
            (queue_of 1 [(2, 3, ''a'' @ [NUL]), (4, 5, ''b'' @ [NUL]), (6, 7, ''b'' @ [NUL])]) 1 9
          = Some (h', True) \<and> ring h' 1 [2] \<and> live h' = {1, 2, 3})"
proof -
  let ?Q = "queue_of 1 [(2, 3, ''a'' @ [NUL]), (4, 5, ''b'' @ [NUL]), (6, 7, ''b'' @ [NUL])]"
  have r: "ring ?Q 1 [2, 4, 6]" by (simp add: ring_def queue_of_def)
  have s: "set [1, 2, 4, 6] \<subseteq> live ?Q" by (simp add: queue_of_def)
  have m: "malloc_ok ?Q 9" by (simp add: queue_of_def malloc_ok_def)
  have c: "c_strings ?Q [2, 4, 6]" by (simp add: c_strings_def is_c_string_def queue_of_def)
  have l: "live ?Q - set [4, 6] - val ?Q ` set [4, 6] = {1, 2, 3}"
    by (auto simp: queue_of_def)
  show ?thesis
    using q_delete_dup_keeps_only_first [OF r s c m] r c m unfolding l by blast
qed

text \<open>
  Claim C1.  The queue \<open>a, b\<close> is sorted and both strings occur once, so the claim has
  \<^verbatim>\<open>q_delete_dup\<close> keep both.  The code returns \<^verbatim>\<open>true\<close> and keeps only the node of \<open>a\<close>:
  the node of \<open>b\<close> and its string buffer are freed.
\<close>

theorem q_delete_dup_drops_unique_value:
  "str (queue_of 1 [(2, 3, ''a'' @ [NUL]), (4, 5, ''b'' @ [NUL])]) 2 = ''a'' \<and>
   str (queue_of 1 [(2, 3, ''a'' @ [NUL]), (4, 5, ''b'' @ [NUL])]) 4 = ''b'' \<and>
   (\<exists>h'. q_delete_dup (queue_of 1 [(2, 3, ''a'' @ [NUL]), (4, 5, ''b'' @ [NUL])]) 1 9
          = Some (h', True) \<and> ring h' 1 [2] \<and> live h' = {1, 2, 3})"
proof -
  let ?Q = "queue_of 1 [(2, 3, ''a'' @ [NUL]), (4, 5, ''b'' @ [NUL])]"
  have r: "ring ?Q 1 [2, 4]" by (simp add: ring_def queue_of_def)
  have s: "set [1, 2, 4] \<subseteq> live ?Q" by (simp add: queue_of_def)
  have m: "malloc_ok ?Q 9" by (simp add: queue_of_def malloc_ok_def)
  have l: "live ?Q - set [4] - val ?Q ` set [4] = {1, 2, 3}"
    by (auto simp: queue_of_def)
  have "str ?Q 2 = ''a''" "str ?Q 4 = ''b''"
    by (simp_all add: str_def queue_of_def c_str_def)
  then show ?thesis
    using q_delete_dup_correct [OF r s m] unfolding l by blast
qed

text \<open>
  Claim C6: \<^verbatim>\<open>q_delete_dup\<close> returns \<^verbatim>\<open>true\<close> and changes nothing when the queue
  reference is valid and the queue is empty, and returns \<^verbatim>\<open>false\<close> only when the
  reference is \<open>NULL\<close>.  The comment above the function says the same: ``Return false if
  list is NULL'', where the comments of \<^verbatim>\<open>q_delete_mid\<close> and \<^verbatim>\<open>q_remove_head\<close> say ``NULL
  or empty''.  The guard \<^verbatim>\<open>if (!head || head->next == head) return NULL;\<close> rejects the
  empty queue as well: on a valid empty queue the call changes nothing and returns
  \<^verbatim>\<open>false\<close>, the result it gives for a \<open>NULL\<close> reference.
\<close>

theorem q_delete_dup_empty_returns_false:
  "ring (queue_of 1 []) 1 [] \<and>
   q_delete_dup (queue_of 1 []) 1 9 = Some (queue_of 1 [], False) \<and>
   q_delete_dup (queue_of 1 []) NULL 9 = Some (queue_of 1 [], False)"
  by (simp add: ring_def q_delete_dup_def queue_of_def)

section \<open>The order that strcmp decides\<close>

lemma of_char_int: "(of_char c :: int) = int (of_char c)"
  by (simp add: of_nat_of_char)

lemma char_le_int: "(of_char x :: int) \<le> of_char y \<longleftrightarrow> x \<le> y"
  by (simp add: of_char_int less_eq_char_def)

lemma NUL_least: "NUL \<le> c"
  by (simp add: less_eq_char_def)

lemma of_char_le_0: "(of_char x :: int) \<le> 0 \<longleftrightarrow> x = NUL"
proof -
  have "(of_char x :: int) \<le> of_char NUL \<longleftrightarrow> x \<le> NUL" by (rule char_le_int)
  then show ?thesis using NUL_least [of x] by (auto simp: antisym)
qed

lemma strcmp_le: "strcmp a b \<le> 0 \<longleftrightarrow> c_str a \<le> c_str b"
proof (induction a b rule: strcmp.induct)
  case 1
  then show ?case by (simp add: c_str_def)
next
  case (2 y ys)
  then show ?case by (simp add: c_str_def of_char_int)
next
  case (3 x xs)
  then show ?case by (simp add: c_str_def of_char_le_0)
next
  case (4 x xs y ys)
  show ?case
  proof (cases "x = y")
    case True
    then show ?thesis using 4 by (simp add: c_str_def)
  next
    case False
    have "strcmp (x # xs) (y # ys) \<le> 0 \<longleftrightarrow> x < y"
      using False char_le_int [of x y] by auto
    moreover have "c_str (x # xs) \<le> c_str (y # ys) \<longleftrightarrow> x < y"
      using False NUL_least [of x] NUL_least [of y] by (auto simp: c_str_def)
    ultimately show ?thesis by simp
  qed
qed

lemma strcmp_gt: "strcmp a b > 0 \<longleftrightarrow> c_str b < c_str a"
  using strcmp_le [of a b] by auto

lemma strcmp_str: "strcmp (bytes h (val h a)) (bytes h (val h b)) \<le> 0 \<longleftrightarrow> str h a \<le> str h b"
  by (simp add: strcmp_le str_def)

section \<open>Merging two sorted rings\<close>

lemma merge_advance_correct:
  assumes "ring h lh (A @ l # B)"
  shows "\<exists>A' l' B'.
           merge_advance h lh r l (strcmp (bytes h (val h l)) (bytes h (val h r))) =
             Some (l', strcmp (bytes h (val h l')) (bytes h (val h r))) \<and>
           A @ l # B = A' @ l' # B' \<and>
           (str h l' \<le> str h r \<longrightarrow> B' = []) \<and>
           (\<forall>a \<in> set A' - set A. str h a \<le> str h r)"
  using assms
proof (induction B arbitrary: A l)
  case Nil
  have "nxt h l = lh" using ring_nxt_mid [OF Nil] by simp
  then have "merge_advance h lh r l (strcmp (bytes h (val h l)) (bytes h (val h r))) =
             Some (l, strcmp (bytes h (val h l)) (bytes h (val h r)))"
    by (subst merge_advance.simps) simp
  then show ?case by blast
next
  case (Cons b B)
  have nl: "nxt h l = b" using ring_nxt_mid [OF Cons.prems] by simp
  have b: "b \<noteq> lh" using Cons.prems by (auto simp: ring_def)
  show ?case
  proof (cases "str h l \<le> str h r")
    case True
    have r': "ring h lh ((A @ [l]) @ b # B)" using Cons.prems by simp
    obtain A' l' B' where IH:
      "merge_advance h lh r b (strcmp (bytes h (val h b)) (bytes h (val h r))) =
         Some (l', strcmp (bytes h (val h l')) (bytes h (val h r)))"
      "(A @ [l]) @ b # B = A' @ l' # B'"
      "str h l' \<le> str h r \<longrightarrow> B' = []"
      "\<forall>a \<in> set A' - set (A @ [l]). str h a \<le> str h r"
      using Cons.IH [OF r'] by blast
    have "merge_advance h lh r l (strcmp (bytes h (val h l)) (bytes h (val h r))) =
          Some (l', strcmp (bytes h (val h l')) (bytes h (val h r)))"
      using nl b True IH(1) by (subst merge_advance.simps) (simp add: strcmp_str Let_def)
    moreover have "\<forall>a \<in> set A' - set A. str h a \<le> str h r"
      using IH(4) True by auto
    ultimately show ?thesis using IH(2,3) by (intro exI [of _ A'] exI [of _ l'] exI [of _ B']) simp
  next
    case False
    then have "merge_advance h lh r l (strcmp (bytes h (val h l)) (bytes h (val h r))) =
             Some (l, strcmp (bytes h (val h l)) (bytes h (val h r)))"
      by (subst merge_advance.simps) (simp add: strcmp_str)
    then show ?thesis using False by (intro exI [of _ A] exI [of _ l] exI [of _ "b # B"]) simp
  qed
qed

lemma merge_loop_correct:
  assumes "ring h lh (A @ l # B)" and "ring h rh R"
    and "set (lh # A @ l # B) \<inter> set (rh # R) = {}"
    and "sorted (map (str h) (A @ l # B))" and "sorted (map (str h) R)"
    and "\<forall>a \<in> set A. \<forall>r \<in> set R. str h a \<le> str h r"
  shows "\<exists>h' L. merge_loop h lh rh l (hd (R @ [rh])) (nxt h (hd (R @ [rh]))) = Some h' \<and>
           ring h' lh L \<and> ring h' rh [] \<and> sorted (map (str h) L) \<and>
           mset L = mset (A @ l # B) + mset R \<and>
           relinked (set (lh # A @ l # B) \<union> set (rh # R)) h h'"
  using assms
proof (induction R arbitrary: h A l B)
  case Nil
  have "merge_loop h lh rh l rh (nxt h rh) = Some h"
    by (subst merge_loop.simps) simp
  then show ?case using Nil.prems by (intro exI [of _ h] exI [of _ "A @ l # B"]) simp
next
  case (Cons r R)
  let ?L = "A @ l # B"
  have r: "r \<noteq> rh" "r \<noteq> NULL" "r \<notin> set (rh # R)" "r \<notin> set (lh # ?L)"
    using Cons.prems(2,3) by (auto simp: ring_def)
  have nr: "nxt h r = hd (R @ [rh])"
    using ring_nxt_mid [of h rh "[]" r R] Cons.prems(2) by simp
  obtain A' l' B' where adv:
    "merge_advance h lh r l (strcmp (bytes h (val h l)) (bytes h (val h r))) =
       Some (l', strcmp (bytes h (val h l')) (bytes h (val h r)))"
    "?L = A' @ l' # B'"
    "str h l' \<le> str h r \<longrightarrow> B' = []"
    "\<forall>a \<in> set A' - set A. str h a \<le> str h r"
    using merge_advance_correct [OF Cons.prems(1), of r] by blast
  have A'r: "\<forall>a \<in> set A'. str h a \<le> str h r"
    using adv(4) Cons.prems(6) by auto
  have rR: "\<forall>r' \<in> set R. str h r \<le> str h r'"
    using Cons.prems(5) by simp
  let ?h1 = "list_del h r"
  have f1: "relinked (set (rh # R)) h ?h1"
    using relinked_del [of h rh "[]" r R] Cons.prems(2) by simp
  have R1: "ring ?h1 rh R"
    using ring_del [of h rh "[]" r R] Cons.prems(2) by simp
  have L1: "ring ?h1 lh (A' @ l' # B')"
    using relinked_ring [OF f1, of lh ?L] Cons.prems(1,3) adv(2) by auto
  have s1: "str ?h1 = str h" using f1 by (rule relinked_str)
  define h2 where "h2 =
    (if strcmp (bytes h (val h l')) (bytes h (val h r)) > 0
     then list_add_tail ?h1 r l' else list_add ?h1 r l')"
  define A2 where "A2 = (if str h l' \<le> str h r then A' else A' @ [r])"
  define B2 where "B2 = (if str h l' \<le> str h r then [r] else B')"
  have L2: "ring h2 lh (A2 @ l' # B2)"
    and f2: "relinked (set (r # lh # ?L)) ?h1 h2"
  proof -
    show "ring h2 lh (A2 @ l' # B2)"
    proof (cases "str h l' \<le> str h r")
      case True
      then have "B' = []" using adv(3) by simp
      then have "ring (list_add ?h1 r (last (lh # A' @ [l']))) lh ((A' @ [l']) @ r # [])"
        using L1 r adv(2) by (intro ring_add) auto
      then show ?thesis
        using True by (simp add: h2_def A2_def B2_def strcmp_str [symmetric])
    next
      case False
      have "ring (list_add_tail ?h1 r (hd ((l' # B') @ [lh]))) lh (A' @ r # l' # B')"
        using L1 r adv(2) by (intro ring_add_tail) auto
      then show ?thesis
        using False by (simp add: h2_def A2_def B2_def strcmp_str [symmetric])
    qed
    show "relinked (set (r # lh # ?L)) ?h1 h2"
    proof (cases "str h l' \<le> str h r")
      case True
      then have "B' = []" using adv(3) by simp
      then have "relinked (set (r # lh # (A' @ [l']) @ [])) ?h1
            (list_add ?h1 r (last (lh # A' @ [l'])))"
        using L1 by (intro relinked_add) auto
      then show ?thesis
        using True adv(2) \<open>B' = []\<close> by (simp add: h2_def strcmp_str [symmetric])
    next
      case False
      have "relinked (set (r # lh # A' @ l' # B')) ?h1
            (list_add_tail ?h1 r (hd ((l' # B') @ [lh])))"
        using L1 by (intro relinked_add_tail) auto
      then show ?thesis
        using False adv(2) by (simp add: h2_def strcmp_str [symmetric])
    qed
  qed
  have R2: "ring h2 rh R"
    using relinked_ring [OF f2, of rh R] R1 r Cons.prems(3) by auto
  have s2: "str h2 = str h" using relinked_str [OF f2] s1 by simp
  have f12: "relinked (set (lh # ?L) \<union> set (rh # r # R)) h h2"
    by (rule relinked_trans [OF f1 f2]) auto
  have sorted2: "sorted (map (str h) (A2 @ l' # B2))"
  proof (cases "str h l' \<le> str h r")
    case True
    then have B': "B' = []" using adv(3) by simp
    have "sorted (map (str h) (A' @ [l']))" using Cons.prems(4) adv(2) B' by simp
    then show ?thesis
      using True A'r by (auto simp: A2_def B2_def sorted_append)
  next
    case False
    then have lt: "str h r < str h l'" by simp
    have "sorted (map (str h) (A' @ l' # B'))" using Cons.prems(4) adv(2) by simp
    then show ?thesis
      using False lt A'r by (fastforce simp: A2_def B2_def sorted_append)
  qed
  have dis2: "set (lh # A2 @ l' # B2) \<inter> set (rh # R) = {}"
    using Cons.prems(3) adv(2) r(3) by (auto simp: A2_def B2_def)
  have A2R: "\<forall>a \<in> set A2. \<forall>r' \<in> set R. str h a \<le> str h r'"
    using A'r rR by (auto simp: A2_def intro: order_trans)
  obtain h' L where IH:
    "merge_loop h2 lh rh l' (hd (R @ [rh])) (nxt h2 (hd (R @ [rh]))) = Some h'"
    "ring h' lh L" "ring h' rh []" "sorted (map (str h2) L)"
    "mset L = mset (A2 @ l' # B2) + mset R"
    "relinked (set (lh # A2 @ l' # B2) \<union> set (rh # R)) h2 h'"
    using Cons.IH [OF L2 R2 dis2] sorted2 Cons.prems(5) A2R unfolding s2 by auto
  have "merge_loop h lh rh l r (nxt h r) = Some h'"
    using r(1) adv(1) IH(1) nr
    by (subst merge_loop.simps) (simp add: h2_def Let_def)
  moreover have "mset L = mset ?L + mset (r # R)"
    using IH(5) adv(2,3) by (auto simp: A2_def B2_def)
  moreover have "relinked (set (lh # ?L) \<union> set (rh # r # R)) h h'"
    by (rule relinked_trans [OF f12 IH(6)]) (use adv(2,3) in \<open>auto simp: A2_def B2_def\<close>)
  ultimately show ?case
    using IH(2,3,4) s2 by (intro exI [of _ h'] exI [of _ L]) simp
qed

lemma merge_two_list_correct:
  assumes "ring h lh L" and "L \<noteq> []" and "ring h rh R"
    and "set (lh # L) \<inter> set (rh # R) = {}"
    and "sorted (map (str h) L)" and "sorted (map (str h) R)"
  shows "\<exists>h' M. merge_two_list h lh rh = Some h' \<and> ring h' lh M \<and> sorted (map (str h) M) \<and>
           mset M = mset L + mset R \<and> relinked (set (lh # L) \<union> set (rh # R)) h h'"
proof -
  obtain l B where L: "L = [] @ l # B" using assms(2) by (cases L) auto
  have nl: "nxt h lh = l" "l \<noteq> lh"
    using ring_nxt_head [OF assms(1)] assms(1) L by (auto simp: ring_def)
  have nr: "nxt h rh = hd (R @ [rh])" using assms(3) by (rule ring_nxt_head)
  obtain h' M where
    "merge_loop h lh rh l (hd (R @ [rh])) (nxt h (hd (R @ [rh]))) = Some h'"
    "ring h' lh M" "sorted (map (str h) M)" "mset M = mset ([] @ l # B) + mset R"
    "relinked (set (lh # [] @ l # B) \<union> set (rh # R)) h h'"
    using merge_loop_correct [of h lh "[]" l B rh R] assms L by auto
  moreover have "merge_two_list h lh rh =
      merge_loop h lh rh l (hd (R @ [rh])) (nxt h (hd (R @ [rh])))"
    using nl nr by (simp add: merge_two_list_def Let_def)
  ultimately show ?thesis using L by auto
qed

section \<open>Merge sort\<close>

lemma q_sort_mid_correct:
  assumes "ring h head xs" and "2 * i + 1 \<le> length xs"
  shows "q_sort_mid h head (xs ! i) ((xs @ [head]) ! (2 * i + 1)) =
         Some (xs ! ((length xs - 1) div 2))"
  using assms(2)
proof (induction "length xs - 2 * i" arbitrary: i rule: less_induct)
  case less
  let ?n = "length xs" and ?cyc = "xs @ [head]"
  show ?case
  proof (cases "2 * i + 1 < ?n \<and> 2 * i + 2 < ?n")
    case True
    have f: "?cyc ! (2 * i + 1) \<noteq> head"
      using ring_nth_head [OF assms(1), of "2 * i + 1"] True by simp
    have nf: "nxt h (?cyc ! (2 * i + 1)) = ?cyc ! (2 * i + 2)"
      using ring_nxt_nth [OF assms(1), of "2 * i + 1"] True by (simp add: nth_append)
    have nf': "?cyc ! (2 * i + 2) \<noteq> head"
      using ring_nth_head [OF assms(1), of "2 * i + 2"] True by simp
    have nnf: "nxt h (?cyc ! (2 * i + 2)) = ?cyc ! (2 * Suc i + 1)"
      using ring_nxt_nth [OF assms(1), of "2 * i + 2"] True by (simp add: nth_append)
    have ni: "nxt h (xs ! i) = xs ! Suc i"
      using ring_nxt_nth [OF assms(1), of i] True by (simp add: nth_append)
    have "q_sort_mid h head (xs ! i) (?cyc ! (2 * i + 1)) =
          q_sort_mid h head (xs ! Suc i) (?cyc ! (2 * Suc i + 1))"
      using f nf nf' nnf ni by (subst q_sort_mid.simps) simp
    also have "\<dots> = Some (xs ! ((?n - 1) div 2))"
      using True by (intro less.hyps) auto
    finally show ?thesis .
  next
    case False
    then consider "2 * i + 1 = ?n" | "2 * i + 2 = ?n"
      using less.prems by linarith
    then have i: "i = (?n - 1) div 2" by cases auto
    have "\<not> (?cyc ! (2 * i + 1) \<noteq> head \<and> nxt h (?cyc ! (2 * i + 1)) \<noteq> head)"
    proof (cases "2 * i + 1 = ?n")
      case True
      then show ?thesis by (simp add: nth_append)
    next
      case F: False
      then have lt: "2 * i + 1 < ?n" and eq: "Suc (2 * i + 1) = ?n"
        using False less.prems by auto
      have "nxt h (?cyc ! (2 * i + 1)) = ?cyc ! Suc (2 * i + 1)"
        using ring_nxt_nth [OF assms(1) lt] lt by (simp add: nth_append)
      then show ?thesis using eq by (simp add: nth_append)
    qed
    then show ?thesis
      using i by (subst q_sort_mid.simps) auto
  qed
qed

lemma q_sort_split_fields:
  assumes "ring h head (as @ bs)" and "as \<noteq> []" and "bs \<noteq> []"
    and "right \<notin> set (head # as @ bs)"
  shows "nxt (q_sort_split h head (last as) right) =
           (nxt h)(right := hd bs, last bs := right, last as := head)"
    and "prv (q_sort_split h head (last as) right) =
           (prv h)(hd bs := right, right := last bs, head := last as)"
    and "val (q_sort_split h head (last as) right) = val h"
    and "bytes (q_sort_split h head (last as) right) = bytes h"
    and "live (q_sort_split h head (last as) right) = live h"
proof -
  have "as @ bs = butlast as @ last as # bs"
    using assms(2) by (metis append_butlast_last_id append.assoc append_Cons append_Nil)
  then have "ring h head (butlast as @ last as # bs)"
    using assms(1) by metis
  then have "nxt h (last as) = hd (bs @ [head])"
    by (rule ring_nxt_mid)
  then have ns: "nxt h (last as) = hd bs"
    using assms(3) by simp
  have ph: "prv h head = last bs"
    using ring_prv_head [OF assms(1)] assms(3) by simp
  have ne: "last as \<noteq> right" "head \<noteq> right" "hd bs \<noteq> head" "hd bs \<noteq> right"
    using assms by (auto simp: ring_def)
  show "nxt (q_sort_split h head (last as) right) =
           (nxt h)(right := hd bs, last bs := right, last as := head)"
    using ns ph ne by (simp add: q_sort_split_def INIT_LIST_HEAD_def Let_def)
  show "prv (q_sort_split h head (last as) right) =
           (prv h)(hd bs := right, right := last bs, head := last as)"
    using ns ph ne by (auto simp: q_sort_split_def INIT_LIST_HEAD_def Let_def fun_eq_iff)
  show "val (q_sort_split h head (last as) right) = val h"
    "bytes (q_sort_split h head (last as) right) = bytes h"
    "live (q_sort_split h head (last as) right) = live h"
    by (simp_all add: q_sort_split_def INIT_LIST_HEAD_def Let_def)
qed

lemma q_sort_split_correct:
  assumes "ring h head (as @ bs)" and "as \<noteq> []" and "bs \<noteq> []"
    and "right \<noteq> NULL" and "right \<notin> set (head # as @ bs)"
  shows "ring (q_sort_split h head (last as) right) head as"
    and "ring (q_sort_split h head (last as) right) right bs"
    and "relinked (insert right (set (head # as @ bs))) h (q_sort_split h head (last as) right)"
proof -
  let ?h = "q_sort_split h head (last as) right"
  note f = q_sort_split_fields [OF assms(1,2,3,5)]
  obtain as' s where as: "as = as' @ [s]" using assms(2) by (cases as rule: rev_cases) auto
  consider (one) b where "bs = [b]" | (many) b bs' e where "bs = b # bs' @ [e]"
    using assms(3) by (cases bs; cases "tl bs" rule: rev_cases) auto
  then have "ring ?h head as \<and> ring ?h right bs"
  proof cases
    case one
    have r: "ring h head ((as' @ [s]) @ [b])" "right \<notin> set (head # (as' @ [s]) @ [b])"
      using assms(1,5) as one by simp_all
    have d1: "distinct [head, s, b, right]"
      using r by (auto simp: ring_def)
    have d2: "distinct [right, b, s, head]"
      using d1 by auto
    have d: "right \<noteq> NULL" "head \<notin> set as'" "s \<notin> set as'" "b \<notin> set as'"
      "right \<notin> set as'" "distinct as'" "NULL \<notin> set as'" "head \<noteq> NULL" "s \<noteq> NULL" "b \<noteq> NULL"
      using r assms(4) by (auto simp: ring_def)
    have N: "path (nxt h) (nxt h head) as' s" "nxt h s = b" "nxt h b = head"
      and P: "prv h head = b" "prv h b = s" "path (prv h) (prv h s) (rev as') head"
      using r(1) by (simp_all add: ring_def)
    have fn: "nxt ?h = (nxt h)(right := b, b := right, s := head)"
      and fp: "prv ?h = (prv h)(b := right, right := b, head := s)"
      using f(1,2) as one by simp_all
    have "path (nxt ?h) (nxt ?h head) as' s" "nxt ?h s = head" "nxt ?h right = b" "nxt ?h b = right"
      "prv ?h head = s" "path (prv ?h) (prv ?h s) (rev as') head" "prv ?h right = b" "prv ?h b = right"
      unfolding fn fp using d1 d2 d N P by simp_all
    then show ?thesis
      using d1 d2 d as one by (simp add: ring_def)
  next
    case many
    have r: "ring h head ((as' @ [s]) @ b # bs' @ [e])"
      "right \<notin> set (head # (as' @ [s]) @ b # bs' @ [e])"
      using assms(1,5) as many by simp_all
    have d1: "distinct [head, s, b, e, right]"
      using r by (auto simp: ring_def)
    have d2: "distinct [right, e, b, s, head]"
      using d1 by auto
    have d: "right \<noteq> NULL" "head \<notin> set as'" "s \<notin> set as'" "b \<notin> set as'"
      "right \<notin> set as'" "e \<notin> set as'" "distinct as'" "NULL \<notin> set as'" "head \<noteq> NULL" "s \<noteq> NULL"
      "b \<noteq> NULL" "e \<noteq> NULL" "NULL \<notin> set bs'" "distinct bs'" "set as' \<inter> set bs' = {}"
      "head \<notin> set bs'" "s \<notin> set bs'" "b \<notin> set bs'" "right \<notin> set bs'" "e \<notin> set bs'" 
      using r assms(4) by (auto simp: ring_def)
    have N: "path (nxt h) (nxt h head) as' s" "nxt h s = b" "path (nxt h) (nxt h b) bs' e" "nxt h e = head"
      and P: "prv h head = e" "path (prv h) (prv h e) (rev bs') b" "prv h b = s"
        "path (prv h) (prv h s) (rev as') head"
      using r(1) by (simp_all add: ring_def)
    have fn: "nxt ?h = (nxt h)(right := b, e := right, s := head)"
      and fp: "prv ?h = (prv h)(b := right, right := e, head := s)"
      using f(1,2) as many by simp_all
    have "path (nxt ?h) (nxt ?h head) as' s" "nxt ?h s = head" "nxt ?h right = b"
      "path (nxt ?h) (nxt ?h b) bs' e" "nxt ?h e = right"
      "prv ?h head = s" "path (prv ?h) (prv ?h s) (rev as') head" "prv ?h right = e"
      "path (prv ?h) (prv ?h e) (rev bs') b" "prv ?h b = right"
      unfolding fn fp using d1 d2 d N P by simp_all
    then show ?thesis
      using d1 d2 d as many by (simp add: ring_def)
  qed
  then show "ring ?h head as" "ring ?h right bs" by simp_all
  have "hd bs \<in> set bs" "last bs \<in> set bs" "last as \<in> set as"
    using assms(2,3) by auto
  then show "relinked (insert right (set (head # as @ bs))) h ?h"
    unfolding relinked_def f by auto
qed

lemma last_take_Suc: "i < length xs \<Longrightarrow> last (take (Suc i) xs) = xs ! i"
  by (simp add: take_Suc_conv_app_nth)

lemma last_neq_first: "distinct xs \<Longrightarrow> 2 \<le> length xs \<Longrightarrow> last xs \<noteq> xs ! 0"
proof -
  assume dx: "distinct xs" and n2: "2 \<le> length xs"
  have "xs \<noteq> []" using n2 by auto
  then have "last xs = xs ! (length xs - 1)" by (rule last_conv_nth)
  moreover have "(xs ! (length xs - 1) = xs ! 0) = (length xs - 1 = 0)"
    using dx n2 by (intro nth_eq_iff_index_eq) auto
  ultimately show "last xs \<noteq> xs ! 0" using n2 by simp
qed

lemma mset_two: "mset ys = mset [a, b] \<Longrightarrow> ys = [a, b] \<or> ys = [b, a]"
proof -
  assume m: "mset ys = mset [a, b]"
  then have "length ys = 2" using mset_eq_length by fastforce
  then obtain y1 y2 where ys: "ys = [y1, y2]"
    by (cases ys; cases "tl ys") auto
  show ?thesis using m unfolding ys by (auto simp: add_eq_conv_diff)
qed

lemma stack_ok_deeper:
  assumes "stack_ok stk d S" and "T \<subseteq> insert (stk d) S"
  shows "stack_ok stk (Suc d) T"
proof -
  have "stk k \<noteq> stk d" if "Suc d \<le> k" for k
    using assms(1) that by (auto simp: stack_ok_def inj_eq)
  then show ?thesis
    using assms unfolding stack_ok_def by (auto simp: subset_iff)
qed

lemma stack_ok_slot:
  assumes "stack_ok stk d S"
  shows "stk d \<noteq> NULL" and "stk d \<notin> S" and "stk d \<notin> stk ` {Suc d..}"
  using assms by (auto simp: stack_ok_def inj_eq)

lemma stack_ok_disjoint:
  assumes "stack_ok stk d S"
  shows "stk ` {d..} \<inter> S = {}"
  using assms by (auto simp: stack_ok_def)

lemma q_sort_correct:
  assumes "ring h head xs" and "stack_ok stk d (set (head # xs))"
  shows "\<exists>h' ys. q_sort stk d h head = Some h' \<and> ring h' head ys \<and>
           sorted (map (str h) ys) \<and> mset ys = mset xs \<and>
           relinked (set (head # xs) \<union> stk ` {d..}) h h'"
  using assms
proof (induction "length xs" arbitrary: xs h head d rule: less_induct)
  case less
  let ?n = "length xs"
  have hd0: "head \<noteq> NULL" using less.prems(1) by (rule ring_head_not_NULL)
  show ?case
  proof (cases "?n \<le> 1")
    case True
    then consider "xs = []" | x where "xs = [x]"
      by (cases xs; cases "tl xs") auto
    then have "nxt h head = head \<or> list_is_singular h head"
      using less.prems(1) by cases (auto simp: ring_def list_is_singular_def list_empty_def)
    then have "q_sort stk d h head = Some h"
      by (subst q_sort.simps) auto
    moreover have "sorted (map (str h) xs)"
      using True by (cases xs; cases "tl xs") auto
    ultimately show ?thesis
      using less.prems(1) by (intro exI [of _ h] exI [of _ xs]) simp
  next
    case False
    then have n2: "2 \<le> ?n" by simp
    define k where "k = (?n - 1) div 2 + 1"
    define as where "as = take k xs"
    define bs where "bs = drop k xs"
    define right where "right = stk d"
    have k: "0 < k" "k < ?n" using n2 by (auto simp: k_def)
    have xs: "xs = as @ bs" by (simp add: as_def bs_def)
    have ne: "as \<noteq> []" "bs \<noteq> []" using k by (auto simp: as_def bs_def)
    have len: "length as < ?n" "length bs < ?n" using k by (auto simp: as_def bs_def)
    have slow: "last as = xs ! ((?n - 1) div 2)"
      using k by (simp add: as_def k_def last_take_Suc)
    have nh: "nxt h head = xs ! 0" "nxt h head \<noteq> head"
      using ring_nxt_cyc [OF less.prems(1), of 0] ring_empty_iff [OF less.prems(1)] n2
      by (auto simp: nth_append)
    have n0: "0 < ?n" using n2 by linarith
    have nnh: "nxt h (xs ! 0) = (xs @ [head]) ! (2 * 0 + 1)"
      using ring_nxt_nth [OF less.prems(1) n0] by simp
    have ph: "prv h head = last xs"
      using ring_prv_head [OF less.prems(1)] n2 by auto
    have dx: "distinct xs" using ring_distinct [OF less.prems(1)] by simp
    have "last xs \<noteq> xs ! 0" using dx n2 by (rule last_neq_first)
    then have ns: "\<not> list_is_singular h head"
      using nh ph by (simp add: list_is_singular_def)
    have mid: "q_sort_mid h head (nxt h head) (nxt h (nxt h head)) = Some (last as)"
      using q_sort_mid_correct [OF less.prems(1), of 0] n2 unfolding nh(1) nnh slow by simp
    have right: "right \<noteq> NULL" "right \<notin> set (head # as @ bs)" "right \<notin> stk ` {Suc d..}"
      using stack_ok_slot [OF less.prems(2)] xs by (simp_all add: right_def)
    let ?h1 = "q_sort_split h head (last as) right"
    have r1: "ring h head (as @ bs)" using less.prems(1) xs by simp
    note sp = q_sort_split_correct [OF r1 ne right(1,2)]
    have d: "distinct (head # as @ bs)" using r1 by (rule ring_distinct)
    have st_r: "stack_ok stk (Suc d) (set (right # bs))"
      using less.prems(2) xs by (intro stack_ok_deeper) (auto simp: right_def)
    have st_l: "stack_ok stk (Suc d) (set (head # as))"
      using less.prems(2) xs by (intro stack_ok_deeper) (auto simp: right_def)
    obtain h2 bs' where h2:
      "q_sort stk (Suc d) ?h1 right = Some h2" "ring h2 right bs'"
      "sorted (map (str ?h1) bs')" "mset bs' = mset bs"
      "relinked (set (right # bs) \<union> stk ` {Suc d..}) ?h1 h2"
      using less.hyps [OF len(2) sp(2) st_r] by blast
    have sb: "set bs' = set bs" using h2(4) by (rule mset_eq_setD)
    have dj1: "(set (right # bs) \<union> stk ` {Suc d..}) \<inter> set (head # as) = {}"
      using d right(2) stack_ok_disjoint [OF st_l] by auto
    have l2: "ring h2 head as"
      using relinked_ring [OF h2(5) dj1] sp(1) by simp
    obtain h3 as' where h3:
      "q_sort stk (Suc d) h2 head = Some h3" "ring h3 head as'"
      "sorted (map (str h2) as')" "mset as' = mset as"
      "relinked (set (head # as) \<union> stk ` {Suc d..}) h2 h3"
      using less.hyps [OF len(1) l2 st_l] by blast
    have sa: "set as' = set as" using h3(4) by (rule mset_eq_setD)
    have dj2: "(set (head # as) \<union> stk ` {Suc d..}) \<inter> set (right # bs') = {}"
      using d right(2,3) stack_ok_disjoint [OF st_r] sb by auto
    have r3: "ring h3 right bs'"
      using relinked_ring [OF h3(5) dj2] h2(2) by simp
    have s1: "str ?h1 = str h" using sp(3) by (rule relinked_str)
    have s2: "str h2 = str h" using relinked_str [OF h2(5)] s1 by simp
    have s3: "str h3 = str h" using relinked_str [OF h3(5)] s2 by simp
    have ne': "as' \<noteq> []" using h3(4) ne(1) by auto
    have dj3: "set (head # as') \<inter> set (right # bs') = {}"
      using d right(2) sa sb by auto
    obtain h4 M where h4:
      "merge_two_list h3 head right = Some h4" "ring h4 head M" "sorted (map (str h3) M)"
      "mset M = mset as' + mset bs'"
      "relinked (set (head # as') \<union> set (right # bs')) h3 h4"
      using merge_two_list_correct [OF h3(2) ne' r3 dj3] h3(3) h2(3) s1 s2 s3 by auto
    have "q_sort stk d h head = Some h4"
      using hd0 nh(2) ns mid h2(1) h3(1) h4(1)
      by (subst q_sort.simps) (simp add: right_def)
    moreover have "mset M = mset xs"
      using h4(4) h3(4) h2(4) xs by simp
    moreover have "relinked (set (head # xs) \<union> stk ` {d..}) h h4"
    proof -
      have sub: "stk ` {Suc d..} \<subseteq> stk ` {d..}" "right \<in> stk ` {d..}"
        by (auto simp: right_def)
      have a: "relinked (set (head # xs) \<union> stk ` {d..}) h h2"
        by (rule relinked_trans [OF sp(3) h2(5)]) (use sub xs in auto)
      have b: "relinked (set (head # xs) \<union> stk ` {d..}) h h3"
        by (rule relinked_trans [OF a h3(5)]) (use sub xs in auto)
      show ?thesis
        by (rule relinked_trans [OF b h4(5)]) (use sub xs sa sb in auto)
    qed
    ultimately show ?thesis
      using h4(2,3) s3 by (intro exI [of _ h4] exI [of _ M]) simp
  qed
qed

text \<open>
  Claim C2.  On every valid queue whose values are strings, \<^verbatim>\<open>q_sort\<close> returns; the
  resulting queue holds the same elements, and every element \<open>a\<close> of it and the element
  \<open>b\<close> right after it satisfy \<^verbatim>\<open>strcmp(a.value, b.value) <= 0\<close>.
\<close>

theorem q_sort_sorted:
  assumes "ring h head xs" and "c_strings h xs" and "stack_ok stk d (set (head # xs))"
  shows "\<exists>h' ys. q_sort stk d h head = Some h' \<and> ring h' head ys \<and> mset ys = mset xs \<and>
           val h' = val h \<and> bytes h' = bytes h \<and>
           (\<forall>i. Suc i < length ys \<longrightarrow>
              strcmp (bytes h' (val h' (ys ! i))) (bytes h' (val h' (ys ! Suc i))) \<le> 0)"
proof -
  obtain h' ys where s:
    "q_sort stk d h head = Some h'" "ring h' head ys" "sorted (map (str h) ys)"
    "relinked (set (head # xs) \<union> stk ` {d..}) h h'" "mset ys = mset xs"
    using q_sort_correct [OF assms(1,3)] by blast
  have eq: "str h' = str h" using s(4) by (rule relinked_str)
  have pl: "val h' = val h" "bytes h' = bytes h" using s(4) by (simp_all add: relinked_def)
  have "strcmp (bytes h' (val h' (ys ! i))) (bytes h' (val h' (ys ! Suc i))) \<le> 0"
    if "Suc i < length ys" for i
  proof -
    have "map (str h) ys ! i \<le> map (str h) ys ! Suc i"
      using s(3) that by (intro sorted_nth_mono) auto
    then show ?thesis
      using that by (simp add: strcmp_str eq)
  qed
  then show ?thesis using s(1,2,5) pl by blast
qed

theorem q_sort_sorted_witness:
  "ring (queue_of 1 [(2, 3, ''b'' @ [NUL]), (4, 5, ''a'' @ [NUL])]) 1 [2, 4] \<and>
   c_strings (queue_of 1 [(2, 3, ''b'' @ [NUL]), (4, 5, ''a'' @ [NUL])]) [2, 4] \<and>
   stack_ok (\<lambda>d. 100 + d) 0 (set [1, 2, 4]) \<and>
   (\<exists>h'. q_sort (\<lambda>d. 100 + d) 0 (queue_of 1 [(2, 3, ''b'' @ [NUL]), (4, 5, ''a'' @ [NUL])]) 1 =
           Some h' \<and>
         ring h' 1 [4, 2] \<and> str h' 4 = ''a'' \<and> str h' 2 = ''b'')"
proof -
  let ?Q = "queue_of 1 [(2, 3, ''b'' @ [NUL]), (4, 5, ''a'' @ [NUL])]"
  have r: "ring ?Q 1 [2, 4]" by (simp add: ring_def queue_of_def)
  have c: "c_strings ?Q [2, 4]" by (simp add: c_strings_def is_c_string_def queue_of_def)
  have s: "stack_ok (\<lambda>d. 100 + d) 0 (set [1, 2, 4])"
    by (auto simp: stack_ok_def inj_def)
  obtain h' ys where h':
    "q_sort (\<lambda>d. 100 + d) 0 ?Q 1 = Some h'" "ring h' 1 ys" "mset ys = mset [2, 4]"
    "val h' = val ?Q" "bytes h' = bytes ?Q"
    "\<forall>i. Suc i < length ys \<longrightarrow>
       strcmp (bytes h' (val h' (ys ! i))) (bytes h' (val h' (ys ! Suc i))) \<le> 0"
    using q_sort_sorted [OF r c s] by blast
  have b: "bytes ?Q (val ?Q 2) = ''b'' @ [NUL]" "bytes ?Q (val ?Q 4) = ''a'' @ [NUL]"
    by (simp_all add: queue_of_def)
  have "ys = [2, 4] \<or> ys = [4, 2]" using h'(3) by (rule mset_two)
  moreover have "ys \<noteq> [2, 4]"
  proof
    assume "ys = [2, 4]"
    then have "strcmp (bytes h' (val h' 2)) (bytes h' (val h' 4)) \<le> 0"
      using h'(6) by (auto dest: spec [of _ 0])
    then show False unfolding h'(4,5) b by simp
  qed
  ultimately have "ys = [4, 2]" by simp
  moreover have "str h' 4 = ''a''" "str h' 2 = ''b''"
    unfolding str_def h'(4,5) b by (simp_all add: c_str_def)
  ultimately show ?thesis using h'(1,2) r c s by blast
qed

text \<open>
  Claim C10.  On every valid queue whose values are strings, \<^verbatim>\<open>q_sort\<close> returns a queue
  whose elements are a permutation of the original ones; the set of allocated blocks, the
  \<^verbatim>\<open>value\<close> pointer of every element and the bytes of every string are the same as
  before.
\<close>

theorem q_sort_permutes:
  assumes "ring h head xs" and "c_strings h xs" and "stack_ok stk d (set (head # xs))"
  shows "\<exists>h' ys. q_sort stk d h head = Some h' \<and> ring h' head ys \<and> mset ys = mset xs \<and>
           live h' = live h \<and> val h' = val h \<and> bytes h' = bytes h"
  using q_sort_correct [OF assms(1,3)] unfolding relinked_def by blast

theorem q_sort_permutes_witness:
  "ring (queue_of 1 [(2, 3, ''b'' @ [NUL]), (4, 5, ''a'' @ [NUL]), (6, 7, ''c'' @ [NUL])]) 1
     [2, 4, 6] \<and>
   c_strings (queue_of 1 [(2, 3, ''b'' @ [NUL]), (4, 5, ''a'' @ [NUL]), (6, 7, ''c'' @ [NUL])])
     [2, 4, 6] \<and>
   stack_ok (\<lambda>d. 100 + d) 0 (set [1, 2, 4, 6]) \<and>
   (\<exists>h' ys.
      q_sort (\<lambda>d. 100 + d) 0
        (queue_of 1 [(2, 3, ''b'' @ [NUL]), (4, 5, ''a'' @ [NUL]), (6, 7, ''c'' @ [NUL])]) 1 =
        Some h' \<and>
      ring h' 1 ys \<and> mset ys = mset [2, 4, 6] \<and>
      live h' = live (queue_of 1 [(2, 3, ''b'' @ [NUL]), (4, 5, ''a'' @ [NUL]), (6, 7, ''c'' @ [NUL])]) \<and>
      val h' = val (queue_of 1 [(2, 3, ''b'' @ [NUL]), (4, 5, ''a'' @ [NUL]), (6, 7, ''c'' @ [NUL])]) \<and>
      bytes h' =
        bytes (queue_of 1 [(2, 3, ''b'' @ [NUL]), (4, 5, ''a'' @ [NUL]), (6, 7, ''c'' @ [NUL])]))"
proof -
  let ?Q = "queue_of 1 [(2, 3, ''b'' @ [NUL]), (4, 5, ''a'' @ [NUL]), (6, 7, ''c'' @ [NUL])]"
  have r: "ring ?Q 1 [2, 4, 6]" by (simp add: ring_def queue_of_def)
  have c: "c_strings ?Q [2, 4, 6]" by (simp add: c_strings_def is_c_string_def queue_of_def)
  have s: "stack_ok (\<lambda>d. 100 + d) 0 (set [1, 2, 4, 6])"
    by (auto simp: stack_ok_def inj_def)
  show ?thesis
    using q_sort_permutes [OF r c s] r c s by blast
qed

section \<open>The ring invariant under the other operations\<close>

lemma ring_prv_cyc:
  assumes "ring h head xs" and "i \<le> length xs"
  shows "prv h ((xs @ [head]) ! i) = (head # xs) ! i"
proof (cases "i < length xs")
  case True
  then show ?thesis using ring_prv_nth [OF assms(1) True] by (simp add: nth_append)
next
  case False
  then have i: "i = length xs" using assms(2) by simp
  have "last (head # xs) = (head # xs) ! length xs"
    using last_conv_nth [of "head # xs"] by simp
  then show ?thesis using ring_prv_head [OF assms(1)] i by (simp add: nth_append)
qed

text \<open>
  The invariant as the specification words it: every node \<open>n\<close> of the ring, sentinel
  included, satisfies \<^verbatim>\<open>n->next->prev == n\<close> and \<^verbatim>\<open>n->prev->next == n\<close>.
\<close>

lemma ring_links:
  assumes "ring h head xs" and "n \<in> set (head # xs)"
  shows "prv h (nxt h n) = n \<and> nxt h (prv h n) = n"
proof -
  obtain i where i: "i \<le> length xs" "(head # xs) ! i = n"
    using assms(2) by (metis in_set_conv_nth length_Cons less_Suc_eq_le)
  have "n \<in> set (xs @ [head])" using assms(2) by auto
  then obtain j where j: "j \<le> length xs" "(xs @ [head]) ! j = n"
    by (metis in_set_conv_nth length_append_singleton less_Suc_eq_le)
  have "prv h (nxt h n) = n"
    using ring_nxt_cyc [OF assms(1) i(1)] ring_prv_cyc [OF assms(1) i(1)] i(2) by simp
  moreover have "nxt h (prv h n) = n"
    using ring_nxt_cyc [OF assms(1) j(1)] ring_prv_cyc [OF assms(1) j(1)] j(2) by simp
  ultimately show ?thesis by simp
qed

lemma q_size_loop_correct:
  assumes "ring h head (as @ bs)"
  shows "q_size_loop h head (hd (bs @ [head])) len = Some (len + int (length bs))"
  using assms
proof (induction bs arbitrary: as len)
  case Nil
  then show ?case by (subst q_size_loop.simps) simp
next
  case (Cons b bs)
  have b: "b \<noteq> head" using Cons.prems by (auto simp: ring_def)
  have nb: "nxt h b = hd (bs @ [head])" using ring_nxt_mid [OF Cons.prems] .
  have "ring h head ((as @ [b]) @ bs)" using Cons.prems by simp
  from Cons.IH [OF this, of "len + 1"] show ?case
    using b nb by (subst q_size_loop.simps) simp
qed

lemma q_size_correct:
  assumes "ring h head xs"
  shows "q_size h head = Some (int (length xs))"
  using q_size_loop_correct [of h head "[]" xs 0] assms ring_nxt_head [OF assms]
    ring_head_not_NULL [OF assms]
  by (simp add: q_size_def)

lemma q_swap_loop_correct:
  assumes "ring h head (A @ R)"
  shows "\<exists>h'. q_swap_loop h head (hd (R @ [head])) = Some h' \<and>
           ring h' head (A @ swap_pairs R) \<and> relinked (set (head # A @ R)) h h'"
  using assms
proof (induction R arbitrary: h A rule: swap_pairs.induct)
  case (3 a b R)
  let ?h1 = "list_del h a" and ?h' = "list_move h a b"
  have ne: "a \<noteq> head" "b \<noteq> head" "a \<noteq> NULL" "a \<notin> set (head # (A @ [b]) @ R)"
    using "3.prems" by (auto simp: ring_def)
  have na: "nxt h a = b" using ring_nxt_mid [OF "3.prems"] by simp
  have r1: "ring ?h1 head ((A @ [b]) @ R)"
    using ring_del [OF "3.prems"] by simp
  have f1: "relinked (set (head # A @ b # R)) h ?h1"
    using "3.prems" by (rule relinked_del)
  have "ring (list_add ?h1 a (last (head # A @ [b]))) head ((A @ [b]) @ a # R)"
    using r1 ne(3,4) by (rule ring_add)
  then have r2: "ring ?h' head ((A @ [b, a]) @ R)"
    by (simp add: list_move_def)
  have "relinked (set (a # head # (A @ [b]) @ R)) ?h1 (list_add ?h1 a (last (head # A @ [b])))"
    using r1 by (rule relinked_add)
  then have f2: "relinked (set (a # head # A @ b # R)) ?h1 ?h'"
    by (simp add: list_move_def)
  have na': "nxt ?h' a = hd (R @ [head])"
    using ring_nxt_mid [of ?h' head "A @ [b]" a R] r2 by simp
  obtain h'' where h'':
    "q_swap_loop ?h' head (hd (R @ [head])) = Some h''"
    "ring h'' head ((A @ [b, a]) @ swap_pairs R)"
    "relinked (set (head # (A @ [b, a]) @ R)) ?h' h''"
    using "3.IH" [OF r2] by blast
  have "q_swap_loop h head a = Some h''"
    using ne(1,2) na na' h''(1) by (subst q_swap_loop.simps) (simp add: Let_def)
  moreover have "relinked (set (head # A @ a # b # R)) h h''"
    by (rule relinked_trans [OF relinked_trans [OF f1 f2 subset_refl] h''(3)]) auto
  ultimately show ?case using h''(2) by simp
next
  case 1
  then show ?case by (subst q_swap_loop.simps) simp
next
  case (2 v)
  have "v \<noteq> head" "nxt h v = head"
    using "2.prems" ring_nxt_mid [of h head A v "[]"] by (auto simp: ring_def)
  then have "q_swap_loop h head v = Some h"
    by (subst q_swap_loop.simps) simp
  then show ?case using "2.prems" by simp
qed

lemma q_swap_correct:
  assumes "ring h head xs"
  shows "\<exists>h'. q_swap h head = Some h' \<and> ring h' head (swap_pairs xs) \<and>
           relinked (set (head # xs)) h h'"
  using q_swap_loop_correct [of h head "[]" xs] assms ring_nxt_head [OF assms]
    ring_head_not_NULL [OF assms]
  by (simp add: q_swap_def)

lemma ring_head_fields:
  assumes "ring h head xs"
  shows "nxt h head \<noteq> NULL" and "prv h head \<noteq> NULL"
proof -
  have in_ring: "nxt h head \<in> set (head # xs)" "prv h head \<in> set (head # xs)"
    using ring_nxt_head [OF assms] ring_prv_head [OF assms]
    by (cases xs; cases xs rule: rev_cases; simp)+
  have "NULL \<notin> set (head # xs)"
    using assms by (auto simp: ring_def)
  then show "nxt h head \<noteq> NULL" and "prv h head \<noteq> NULL"
    using in_ring by metis+
qed

lemma ring_payload [simp]:
  "ring (h\<lparr>val := v\<rparr>) head xs = ring h head xs"
  "ring (h\<lparr>bytes := b\<rparr>) head xs = ring h head xs"
  "ring (h\<lparr>live := l\<rparr>) head xs = ring h head xs"
  by (rule ring_cong; simp)+

lemma ring_malloc [simp]: "ring (malloc h p) head xs = ring h head xs"
  by (simp add: malloc_def)

lemma ring_free [simp]: "ring (free h p) head xs = ring h head xs"
  by (simp add: free_def)

lemma q_insert_head_correct:
  assumes "ring h head xs" and "pn = NULL \<or> pn \<notin> set (head # xs)"
  shows "q_insert_head h head s pn pv =
           (if pn = NULL \<or> pv = NULL then (fst (q_insert_head h head s pn pv), False)
            else (fst (q_insert_head h head s pn pv), True))"
    and "pn = NULL \<or> pv = NULL \<Longrightarrow> ring (fst (q_insert_head h head s pn pv)) head xs"
    and "pn \<noteq> NULL \<Longrightarrow> pv \<noteq> NULL \<Longrightarrow> ring (fst (q_insert_head h head s pn pv)) head (pn # xs)"
    and "pn \<noteq> NULL \<Longrightarrow> pv \<noteq> NULL \<Longrightarrow>
         bytes (fst (q_insert_head h head s pn pv)) (val (fst (q_insert_head h head s pn pv)) pn) =
           strncpy s (strnlen s 1024 + 1)"
proof -
  note g = ring_head_not_NULL [OF assms(1)] ring_head_fields [OF assms(1)]
  show "q_insert_head h head s pn pv =
           (if pn = NULL \<or> pv = NULL then (fst (q_insert_head h head s pn pv), False)
            else (fst (q_insert_head h head s pn pv), True))"
    using g by (simp add: q_insert_head_def Let_def)
  show "ring (fst (q_insert_head h head s pn pv)) head xs" if "pn = NULL \<or> pv = NULL"
    using g that assms(1) by (auto simp: q_insert_head_def Let_def)
  show "ring (fst (q_insert_head h head s pn pv)) head (pn # xs)" if "pn \<noteq> NULL" "pv \<noteq> NULL"
  proof -
    let ?h4 = "(malloc (malloc h pn) pv)\<lparr>val := (val (malloc (malloc h pn) pv))(pn := pv),
        bytes := (bytes (malloc (malloc h pn) pv))(pv := strncpy s (strnlen s 1024 + 1))\<rparr>"
    have "ring ?h4 head ([] @ xs)" using assms(1) by simp
    then have "ring (list_add ?h4 pn (last (head # []))) head ([] @ pn # xs)"
      using that assms(2) by (intro ring_add) auto
    moreover have "fst (q_insert_head h head s pn pv) = list_add ?h4 pn head"
      using g that by (simp add: q_insert_head_def Let_def malloc_def)
    ultimately show ?thesis by simp
  qed
  show "bytes (fst (q_insert_head h head s pn pv)) (val (fst (q_insert_head h head s pn pv)) pn) =
           strncpy s (strnlen s 1024 + 1)" if "pn \<noteq> NULL" "pv \<noteq> NULL"
    using g that by (simp add: q_insert_head_def Let_def malloc_def)
qed

lemma q_insert_tail_correct:
  assumes "ring h head xs" and "pn = NULL \<or> pn \<notin> set (head # xs)"
  shows "q_insert_tail h head s pn pv =
           (if pn = NULL \<or> pv = NULL then (fst (q_insert_tail h head s pn pv), False)
            else (fst (q_insert_tail h head s pn pv), True))"
    and "pn = NULL \<or> pv = NULL \<Longrightarrow> ring (fst (q_insert_tail h head s pn pv)) head xs"
    and "pn \<noteq> NULL \<Longrightarrow> pv \<noteq> NULL \<Longrightarrow> ring (fst (q_insert_tail h head s pn pv)) head (xs @ [pn])"
    and "pn \<noteq> NULL \<Longrightarrow> pv \<noteq> NULL \<Longrightarrow>
         bytes (fst (q_insert_tail h head s pn pv)) (val (fst (q_insert_tail h head s pn pv)) pn) =
           strncpy s (strnlen s 1024 + 1)"
proof -
  note g = ring_head_not_NULL [OF assms(1)] ring_head_fields [OF assms(1)]
  show "q_insert_tail h head s pn pv =
           (if pn = NULL \<or> pv = NULL then (fst (q_insert_tail h head s pn pv), False)
            else (fst (q_insert_tail h head s pn pv), True))"
    using g by (simp add: q_insert_tail_def Let_def)
  show "ring (fst (q_insert_tail h head s pn pv)) head xs" if "pn = NULL \<or> pv = NULL"
    using g that assms(1) by (auto simp: q_insert_tail_def Let_def)
  show "ring (fst (q_insert_tail h head s pn pv)) head (xs @ [pn])" if "pn \<noteq> NULL" "pv \<noteq> NULL"
  proof -
    let ?h4 = "(malloc (malloc h pn) pv)\<lparr>val := (val (malloc (malloc h pn) pv))(pn := pv),
        bytes := (bytes (malloc (malloc h pn) pv))(pv := strncpy s (strnlen s 1024 + 1))\<rparr>"
    have "ring ?h4 head (xs @ [])" using assms(1) by simp
    then have "ring (list_add_tail ?h4 pn (hd ([] @ [head]))) head (xs @ pn # [])"
      using that assms(2) by (intro ring_add_tail) auto
    moreover have "fst (q_insert_tail h head s pn pv) = list_add_tail ?h4 pn head"
      using g that by (simp add: q_insert_tail_def Let_def malloc_def)
    ultimately show ?thesis by simp
  qed
  show "bytes (fst (q_insert_tail h head s pn pv)) (val (fst (q_insert_tail h head s pn pv)) pn) =
           strncpy s (strnlen s 1024 + 1)" if "pn \<noteq> NULL" "pv \<noteq> NULL"
    using g that by (simp add: q_insert_tail_def Let_def malloc_def)
qed

lemma copy_out_returns:
  "sp = NULL \<or> is_c_string (bytes h (val h e)) \<Longrightarrow> \<exists>ws. copy_out h e sp bufsize = Some ws"
  by (auto simp: copy_out_def strncpy_reads_inside_def)

lemma list_del_payload:
  "val (list_del h a) = val h" "bytes (list_del h a) = bytes h" "live (list_del h a) = live h"
  by (simp_all add: list_del_def Let_def)

lemma q_remove_head_correct:
  assumes "ring h head xs"
  shows "xs = [] \<Longrightarrow> q_remove_head h head sp bufsize = Some (h, NULL, [])"
    and "xs = x # ys \<Longrightarrow> sp = NULL \<or> is_c_string (bytes h (val h x)) \<Longrightarrow>
         \<exists>h' ws. q_remove_head h head sp bufsize = Some (h', x, ws) \<and>
           ring h' head ys \<and> live h' = live h"
proof -
  show "q_remove_head h head sp bufsize = Some (h, NULL, [])" if "xs = []"
    using assms that by (simp add: q_remove_head_def ring_empty)
  show "\<exists>h' ws. q_remove_head h head sp bufsize = Some (h', x, ws) \<and>
           ring h' head ys \<and> live h' = live h"
    if e: "xs = x # ys" and c: "sp = NULL \<or> is_c_string (bytes h (val h x))"
  proof -
    have g: "nxt h head = x" "nxt h head \<noteq> head" "head \<noteq> NULL"
      using ring_nxt_head [OF assms] ring_empty_iff [OF assms] ring_head_not_NULL [OF assms] e
      by simp_all
    have r: "ring (list_del h x) head ([] @ ys)"
      using assms e by (intro ring_del) simp
    obtain ws where "copy_out (list_del h x) x sp bufsize = Some ws"
      using copy_out_returns [of sp "list_del h x" x bufsize] c
      by (auto simp: list_del_payload)
    then show ?thesis
      using g r by (simp add: q_remove_head_def Let_def list_del_payload)
  qed
qed

lemma q_remove_tail_correct:
  assumes "ring h head xs"
  shows "xs = [] \<Longrightarrow> q_remove_tail h head sp bufsize = Some (h, NULL, [])"
    and "xs = ys @ [x] \<Longrightarrow> sp = NULL \<or> is_c_string (bytes h (val h x)) \<Longrightarrow>
         \<exists>h' ws. q_remove_tail h head sp bufsize = Some (h', x, ws) \<and>
           ring h' head ys \<and> live h' = live h"
proof -
  show "q_remove_tail h head sp bufsize = Some (h, NULL, [])" if "xs = []"
    using assms that by (simp add: q_remove_tail_def ring_empty)
  show "\<exists>h' ws. q_remove_tail h head sp bufsize = Some (h', x, ws) \<and>
           ring h' head ys \<and> live h' = live h"
    if e: "xs = ys @ [x]" and c: "sp = NULL \<or> is_c_string (bytes h (val h x))"
  proof -
    have g: "prv h head = x" "nxt h head \<noteq> head" "head \<noteq> NULL"
      using ring_prv_head [OF assms] ring_empty_iff [OF assms] ring_head_not_NULL [OF assms] e
      by simp_all
    have r: "ring (list_del h x) head (ys @ [])"
      using assms e by (intro ring_del) simp
    obtain ws where "copy_out (list_del h x) x sp bufsize = Some ws"
      using copy_out_returns [of sp "list_del h x" x bufsize] c
      by (auto simp: list_del_payload)
    then show ?thesis
      using g r by (simp add: q_remove_tail_def Let_def list_del_payload)
  qed
qed

section \<open>The ring invariant across the public operations\<close>

text \<open>
  Claim C7.  The invariant is kept by every operation that returns (see the theorems on
  the single operations), with one exception.  \<^verbatim>\<open>q_delete_dup\<close> does not check the
  result of \<^verbatim>\<open>q_new\<close>: when that allocation fails on a queue of two elements, the first
  \<^verbatim>\<open>list_move(node, dup_strs)\<close> reads \<^verbatim>\<open>NULL->next\<close> and the operation does not return.
\<close>

theorem q_delete_dup_scratch_allocation_fault:
  "ring (queue_of 1 [(2, 3, ''a'' @ [NUL]), (4, 5, ''b'' @ [NUL])]) 1 [2, 4] \<and>
   q_new (queue_of 1 [(2, 3, ''a'' @ [NUL]), (4, 5, ''b'' @ [NUL])]) NULL =
     (queue_of 1 [(2, 3, ''a'' @ [NUL]), (4, 5, ''b'' @ [NUL])], NULL) \<and>
   q_delete_dup (queue_of 1 [(2, 3, ''a'' @ [NUL]), (4, 5, ''b'' @ [NUL])]) 1 NULL = None"
proof -
  let ?Q = "queue_of 1 [(2, 3, ''a'' @ [NUL]), (4, 5, ''b'' @ [NUL])]"
  have r: "ring ?Q 1 [2, 4]" by (simp add: ring_def queue_of_def)
  have n: "nxt ?Q 1 = 2" "nxt ?Q 2 = 4" "nxt ?Q 4 = 1" "val ?Q 2 = 3"
    by (simp_all add: queue_of_def)
  have "q_delete_dup_loop ?Q 1 NULL 3 4 1 = None"
    using n by (subst q_delete_dup_loop.simps) (simp add: Let_def)
  then have "q_delete_dup ?Q 1 NULL = None"
    using n by (simp add: q_delete_dup_def q_new_def)
  then show ?thesis using r by (simp add: q_new_def)
qed

text \<open>
  The invariant in the words of the specification: in a ring every node \<open>n\<close>, the
  sentinel included, has \<^verbatim>\<open>n->next->prev == n\<close> and \<^verbatim>\<open>n->prev->next == n\<close>, and the
  sentinel occurs once.
\<close>

theorem ring_invariant:
  assumes "ring h head xs" and "n \<in> set (head # xs)"
  shows "prv h (nxt h n) = n \<and> nxt h (prv h n) = n \<and> head \<notin> set xs \<and> distinct xs"
  using ring_links [OF assms] ring_distinct [OF assms(1)] by simp

theorem ring_invariant_witness:
  "ring (queue_of 1 [(2, 3, ''a'' @ [NUL]), (4, 5, ''b'' @ [NUL])]) 1 [2, 4] \<and>
   4 \<in> set [1, 2, 4 :: addr] \<and>
   prv (queue_of 1 [(2, 3, ''a'' @ [NUL]), (4, 5, ''b'' @ [NUL])])
     (nxt (queue_of 1 [(2, 3, ''a'' @ [NUL]), (4, 5, ''b'' @ [NUL])]) 4) = 4 \<and>
   nxt (queue_of 1 [(2, 3, ''a'' @ [NUL]), (4, 5, ''b'' @ [NUL])])
     (prv (queue_of 1 [(2, 3, ''a'' @ [NUL]), (4, 5, ''b'' @ [NUL])]) 4) = 4"
proof -
  let ?Q = "queue_of 1 [(2, 3, ''a'' @ [NUL]), (4, 5, ''b'' @ [NUL])]"
  have r: "ring ?Q 1 [2, 4]" by (simp add: ring_def queue_of_def)
  have m: "4 \<in> set [1, 2, 4 :: addr]" by simp
  show ?thesis
    using ring_invariant [OF r m] r by simp
qed

text \<open>
  Insertion keeps the invariant.  When an allocation fails the operation returns
  \<^verbatim>\<open>false\<close> and the ring is the one before; otherwise it returns \<^verbatim>\<open>true\<close> and the new
  element is the first (\<^verbatim>\<open>q_insert_head\<close>) or the last (\<^verbatim>\<open>q_insert_tail\<close>) of the ring.
\<close>

theorem q_insert_keeps_ring:
  assumes "ring h head xs" and "pn = NULL \<or> pn \<notin> set (head # xs)"
  shows "(pn = NULL \<or> pv = NULL \<longrightarrow>
            \<not> snd (q_insert_head h head s pn pv) \<and>
            ring (fst (q_insert_head h head s pn pv)) head xs \<and>
            \<not> snd (q_insert_tail h head s pn pv) \<and>
            ring (fst (q_insert_tail h head s pn pv)) head xs) \<and>
         (pn \<noteq> NULL \<and> pv \<noteq> NULL \<longrightarrow>
            snd (q_insert_head h head s pn pv) \<and>
            ring (fst (q_insert_head h head s pn pv)) head (pn # xs) \<and>
            snd (q_insert_tail h head s pn pv) \<and>
            ring (fst (q_insert_tail h head s pn pv)) head (xs @ [pn]))"
proof -
  note a = q_insert_head_correct [OF assms, where s = s and pv = pv]
  note b = q_insert_tail_correct [OF assms, where s = s and pv = pv]
  have "snd (q_insert_head h head s pn pv) = (\<not> (pn = NULL \<or> pv = NULL))"
    by (subst a(1)) simp
  moreover have "snd (q_insert_tail h head s pn pv) = (\<not> (pn = NULL \<or> pv = NULL))"
    by (subst b(1)) simp
  ultimately show ?thesis
    using a(2,3) b(2,3) by blast
qed

theorem q_insert_keeps_ring_witness:
  "ring (queue_of 1 [(2, 3, ''a'' @ [NUL]), (4, 5, ''b'' @ [NUL])]) 1 [2, 4] \<and>
   6 \<notin> set [1, 2, 4 :: addr] \<and>
   \<not> snd (q_insert_head (queue_of 1 [(2, 3, ''a'' @ [NUL]), (4, 5, ''b'' @ [NUL])]) 1 ''c'' 6 NULL) \<and>
   ring (fst (q_insert_head (queue_of 1 [(2, 3, ''a'' @ [NUL]), (4, 5, ''b'' @ [NUL])]) 1 ''c'' 6 NULL))
     1 [2, 4] \<and>
   snd (q_insert_head (queue_of 1 [(2, 3, ''a'' @ [NUL]), (4, 5, ''b'' @ [NUL])]) 1 ''c'' 6 7) \<and>
   ring (fst (q_insert_head (queue_of 1 [(2, 3, ''a'' @ [NUL]), (4, 5, ''b'' @ [NUL])]) 1 ''c'' 6 7))
     1 [6, 2, 4] \<and>
   snd (q_insert_tail (queue_of 1 [(2, 3, ''a'' @ [NUL]), (4, 5, ''b'' @ [NUL])]) 1 ''c'' 6 7) \<and>
   ring (fst (q_insert_tail (queue_of 1 [(2, 3, ''a'' @ [NUL]), (4, 5, ''b'' @ [NUL])]) 1 ''c'' 6 7))
     1 [2, 4, 6]"
proof -
  let ?Q = "queue_of 1 [(2, 3, ''a'' @ [NUL]), (4, 5, ''b'' @ [NUL])]"
  have r: "ring ?Q 1 [2, 4]" by (simp add: ring_def queue_of_def)
  have m: "6 = NULL \<or> 6 \<notin> set [1, 2, 4 :: addr]" by simp
  show ?thesis
    using q_insert_keeps_ring [OF r m, where pv = NULL and s = "''c''"]
      q_insert_keeps_ring [OF r m, where pv = 7 and s = "''c''"] r
    by simp
qed

text \<open>
  Removal keeps the invariant: on an empty queue nothing changes and the result is
  \<open>NULL\<close>; otherwise, when no buffer is given or the strings of the queue are
  terminated, the first (\<^verbatim>\<open>q_remove_head\<close>) or the last (\<^verbatim>\<open>q_remove_tail\<close>) element is
  unlinked and returned, and nothing is freed.
\<close>

theorem q_remove_keeps_ring:
  assumes "ring h head xs" and "sp = NULL \<or> c_strings h xs"
  shows "(xs = [] \<longrightarrow> q_remove_head h head sp bufsize = Some (h, NULL, []) \<and>
                     q_remove_tail h head sp bufsize = Some (h, NULL, [])) \<and>
         (xs \<noteq> [] \<longrightarrow>
            (\<exists>h' ws. q_remove_head h head sp bufsize = Some (h', hd xs, ws) \<and>
               ring h' head (tl xs) \<and> live h' = live h) \<and>
            (\<exists>h' ws. q_remove_tail h head sp bufsize = Some (h', last xs, ws) \<and>
               ring h' head (butlast xs) \<and> live h' = live h))"
proof (intro conjI impI)
  assume "xs = []"
  then show "q_remove_head h head sp bufsize = Some (h, NULL, [])"
    "q_remove_tail h head sp bufsize = Some (h, NULL, [])"
    using q_remove_head_correct(1) [OF assms(1)] q_remove_tail_correct(1) [OF assms(1)]
    by simp_all
next
  assume ne: "xs \<noteq> []"
  then have 1: "xs = hd xs # tl xs" and 2: "xs = butlast xs @ [last xs]" by simp_all
  have c: "sp = NULL \<or> is_c_string (bytes h (val h (hd xs)))"
    "sp = NULL \<or> is_c_string (bytes h (val h (last xs)))"
    using assms(2) ne by (auto simp: c_strings_def list_all_iff)
  show "\<exists>h' ws. q_remove_head h head sp bufsize = Some (h', hd xs, ws) \<and>
               ring h' head (tl xs) \<and> live h' = live h"
    using 1 c(1) by (rule q_remove_head_correct(2) [OF assms(1)])
  show "\<exists>h' ws. q_remove_tail h head sp bufsize = Some (h', last xs, ws) \<and>
               ring h' head (butlast xs) \<and> live h' = live h"
    using 2 c(2) by (rule q_remove_tail_correct(2) [OF assms(1)])
qed

theorem q_remove_keeps_ring_witness:
  "ring (queue_of 1 []) 1 [] \<and>
   q_remove_head (queue_of 1 []) 1 9 4 = Some (queue_of 1 [], NULL, []) \<and>
   q_remove_tail (queue_of 1 []) 1 9 4 = Some (queue_of 1 [], NULL, []) \<and>
   ring (queue_of 1 [(2, 3, ''a'' @ [NUL]), (4, 5, ''b'' @ [NUL])]) 1 [2, 4] \<and>
   c_strings (queue_of 1 [(2, 3, ''a'' @ [NUL]), (4, 5, ''b'' @ [NUL])]) [2, 4] \<and>
   (\<exists>h' ws. q_remove_head (queue_of 1 [(2, 3, ''a'' @ [NUL]), (4, 5, ''b'' @ [NUL])]) 1 9 4 =
              Some (h', 2, ws) \<and> ring h' 1 [4]) \<and>
   (\<exists>h' ws. q_remove_tail (queue_of 1 [(2, 3, ''a'' @ [NUL]), (4, 5, ''b'' @ [NUL])]) 1 9 4 =
              Some (h', 4, ws) \<and> ring h' 1 [2])"
proof -
  let ?Q = "queue_of 1 [(2, 3, ''a'' @ [NUL]), (4, 5, ''b'' @ [NUL])]"
  have r0: "ring (queue_of 1 []) 1 []" by (simp add: ring_def queue_of_def)
  have c0: "9 = NULL \<or> c_strings (queue_of 1 []) []" by (simp add: c_strings_def)
  have r: "ring ?Q 1 [2, 4]" by (simp add: ring_def queue_of_def)
  have c: "c_strings ?Q [2, 4]" by (simp add: c_strings_def is_c_string_def queue_of_def)
  then have c': "9 = NULL \<or> c_strings ?Q [2, 4]" by simp
  have "\<exists>h' ws. q_remove_head ?Q 1 9 4 = Some (h', 2, ws) \<and> ring h' 1 [4]"
    "\<exists>h' ws. q_remove_tail ?Q 1 9 4 = Some (h', 4, ws) \<and> ring h' 1 [2]"
    using q_remove_keeps_ring [OF r c', where bufsize = 4] by auto
  then show ?thesis
    using q_remove_keeps_ring [OF r0 c0, where bufsize = 4] r0 r c by simp
qed

text \<open>\<^verbatim>\<open>q_size\<close> returns the number of elements and changes nothing; it is 0 for \<open>NULL\<close>.\<close>

theorem q_size_counts:
  "q_size h NULL = Some 0 \<and> (ring h head xs \<longrightarrow> q_size h head = Some (int (length xs)))"
  using q_size_correct [of h head xs] by (simp add: q_size_def)

theorem q_size_counts_witness:
  "ring (queue_of 1 [(2, 3, ''a'' @ [NUL]), (4, 5, ''b'' @ [NUL])]) 1 [2, 4] \<and>
   q_size (queue_of 1 [(2, 3, ''a'' @ [NUL]), (4, 5, ''b'' @ [NUL])]) 1 = Some 2"
proof -
  let ?Q = "queue_of 1 [(2, 3, ''a'' @ [NUL]), (4, 5, ''b'' @ [NUL])]"
  have r: "ring ?Q 1 [2, 4]" by (simp add: ring_def queue_of_def)
  show ?thesis
    using q_size_counts [of ?Q 1 "[2, 4]"] r by simp
qed

text \<open>
  \<^verbatim>\<open>q_swap\<close> keeps the invariant and exchanges every two neighbours: \<open>[v0,v1,v2,v3]\<close>
  becomes \<open>[v1,v0,v3,v2]\<close> and \<open>[v0,v1,v2]\<close> becomes \<open>[v1,v0,v2]\<close>.  Nothing is allocated
  or freed and no string changes.
\<close>

theorem q_swap_pairs:
  assumes "ring h head xs"
  shows "\<exists>h'. q_swap h head = Some h' \<and> ring h' head (swap_pairs xs) \<and>
           live h' = live h \<and> val h' = val h \<and> bytes h' = bytes h"
  using q_swap_correct [OF assms] unfolding relinked_def by blast

theorem q_swap_pairs_witness:
  "ring (queue_of 1 [(2, 3, ''a'' @ [NUL]), (4, 5, ''b'' @ [NUL]), (6, 7, ''c'' @ [NUL])]) 1
     [2, 4, 6] \<and>
   (\<exists>h'. q_swap (queue_of 1 [(2, 3, ''a'' @ [NUL]), (4, 5, ''b'' @ [NUL]), (6, 7, ''c'' @ [NUL])]) 1
           = Some h' \<and> ring h' 1 [4, 2, 6])"
proof -
  let ?Q = "queue_of 1 [(2, 3, ''a'' @ [NUL]), (4, 5, ''b'' @ [NUL]), (6, 7, ''c'' @ [NUL])]"
  have r: "ring ?Q 1 [2, 4, 6]" by (simp add: ring_def queue_of_def)
  show ?thesis
    using q_swap_pairs [OF r] r by auto
qed

text \<open>
  A string of at most 1024 bytes is stored whole, followed by its terminator, by a
  successful insertion; of a longer string the first 1025 bytes are stored.
\<close>

theorem q_insert_stored_copy:
  assumes "ring h head xs" and "pn \<notin> set (head # xs)" and "pn \<noteq> NULL" and "pv \<noteq> NULL"
  shows "(strlen s \<le> 1024 \<longrightarrow>
            bytes (fst (q_insert_head h head s pn pv)) (val (fst (q_insert_head h head s pn pv)) pn) =
              c_str s @ [NUL] \<and>
            bytes (fst (q_insert_tail h head s pn pv)) (val (fst (q_insert_tail h head s pn pv)) pn) =
              c_str s @ [NUL]) \<and>
         (1024 < strlen s \<longrightarrow>
            bytes (fst (q_insert_head h head s pn pv)) (val (fst (q_insert_head h head s pn pv)) pn) =
              take 1025 (c_str s) \<and>
            bytes (fst (q_insert_tail h head s pn pv)) (val (fst (q_insert_tail h head s pn pv)) pn) =
              take 1025 (c_str s))"
proof -
  have a: "pn = NULL \<or> pn \<notin> set (head # xs)" using assms(2) by simp
  note h = q_insert_head_correct(4) [OF assms(1) a assms(3,4), where s = s]
  note t = q_insert_tail_correct(4) [OF assms(1) a assms(3,4), where s = s]
  have "strncpy s (strnlen s 1024 + 1) = c_str s @ [NUL]" if "strlen s \<le> 1024"
    using that strncpy_short [of s "strlen s + 1"] by (simp add: strnlen_def min_def)
  moreover have "strncpy s (strnlen s 1024 + 1) = take 1025 (c_str s)" if "1024 < strlen s"
    using that strncpy_long [of 1025 s] by (simp add: strnlen_def min_def)
  ultimately show ?thesis
    unfolding h t by blast
qed

theorem q_insert_stored_copy_witness:
  "ring (queue_of 1 []) 1 [] \<and>
   bytes (fst (q_insert_head (queue_of 1 []) 1 (''abc'' @ [NUL]) 2 3))
     (val (fst (q_insert_head (queue_of 1 []) 1 (''abc'' @ [NUL]) 2 3)) 2) = ''abc'' @ [NUL] \<and>
   bytes (fst (q_insert_tail (queue_of 1 []) 1 (replicate 2000 CHR ''a'' @ [NUL]) 2 3))
     (val (fst (q_insert_tail (queue_of 1 []) 1 (replicate 2000 CHR ''a'' @ [NUL]) 2 3)) 2) =
     replicate 1025 CHR ''a''"
proof -
  have r: "ring (queue_of 1 []) 1 []" by (simp add: ring_def queue_of_def)
  have m: "2 \<notin> set [1 :: addr]" "(2 :: addr) \<noteq> NULL" "(3 :: addr) \<noteq> NULL" by simp_all
  have s1: "strlen (''abc'' @ [NUL]) = 3" "c_str (''abc'' @ [NUL]) = ''abc''"
    by (simp_all add: strlen_def c_str_def)
  have "c_str (replicate 2000 CHR ''a'' @ NUL # []) = replicate 2000 CHR ''a''"
    by (rule c_str_append_NUL) simp
  then have s2: "strlen (replicate 2000 CHR ''a'' @ [NUL]) = 2000"
    "c_str (replicate 2000 CHR ''a'' @ [NUL]) = replicate 2000 CHR ''a''"
    by (simp_all add: strlen_def)
  show ?thesis
    using q_insert_stored_copy [OF r m, where s = "''abc'' @ [NUL]"]
      q_insert_stored_copy [OF r m, where s = "replicate 2000 CHR ''a'' @ [NUL]"] r
    unfolding s1 s2 by simp
qed

text \<open>
  The buffer left by the insertion of a string of 2000 bytes has 1025 bytes and no
  terminator.  When that element is removed with a buffer of 2000 bytes, \<^verbatim>\<open>strncpy\<close>
  reads beyond the end of the 1025-byte block, and the call has no defined result; with
  a buffer of 1025 bytes the read stays inside the block and the element is returned.
\<close>

theorem q_remove_reads_beyond_block:
  "q_remove_head (fst (q_insert_head (queue_of 1 []) 1 (replicate 2000 CHR ''a'' @ [NUL]) 2 3))
     1 9 2000 = None \<and>
   q_remove_tail (fst (q_insert_tail (queue_of 1 []) 1 (replicate 2000 CHR ''a'' @ [NUL]) 2 3))
     1 9 2000 = None \<and>
   map_option (fst \<circ> snd)
     (q_remove_head (fst (q_insert_head (queue_of 1 []) 1 (replicate 2000 CHR ''a'' @ [NUL]) 2 3))
        1 9 1025) = Some 2"
proof -
  have "c_str (replicate 2000 CHR ''a'' @ NUL # []) = replicate 2000 CHR ''a''"
    by (rule c_str_append_NUL) simp
  then have s: "strncpy (replicate 2000 CHR ''a'' @ [NUL])
                  (Suc (strnlen (replicate 2000 CHR ''a'' @ [NUL]) 1024)) =
                replicate 1025 CHR ''a''"
    by (simp add: strncpy_def strnlen_def strlen_def)
  show ?thesis
    by (simp add: q_insert_head_def q_insert_tail_def queue_of_def Let_def malloc_def
        list_add_def list_add_tail_def s q_remove_head_def q_remove_tail_def list_del_def
        copy_out_def strncpy_reads_inside_def is_c_string_def)
qed

end
